theory Spec2Isabelle
  imports Complex_Main
begin

section \<open>Board model\<close>

text \<open>
  The board is the 15 x 15 array of arrays \<^verbatim>\<open>board[row][col]\<close> of the engine, with cell
  values 0 (empty), 1 (black) and 2 (white).  It is modelled as a store from row index to
  row, a row being a store from column index to cell value, so that \<^verbatim>\<open>board[row][col] = v\<close>
  is the nested update below.  Every read and write of the engine is guarded by the bounds
  \<open>0 \<le> i < boardSize\<close>, so only those cells matter.  Indices and cell values are
  integers, as the engine computes with \<^verbatim>\<open>3 - player\<close> and with signed offsets.
\<close>

type_synonym board = "int \<Rightarrow> int \<Rightarrow> int"

definition boardSize :: int where
  "boardSize = 15"

definition setCell :: "board \<Rightarrow> int \<Rightarrow> int \<Rightarrow> int \<Rightarrow> board" where
  "setCell b row col v = b(row := (b row)(col := v))"

definition inBoard :: "int \<Rightarrow> int \<Rightarrow> bool" where
  "inBoard r c \<longleftrightarrow> 0 \<le> r \<and> r < boardSize \<and> 0 \<le> c \<and> c < boardSize"

definition emptyBoard :: board where
  "emptyBoard = (\<lambda>r c. 0)"

section \<open>Settings\<close>

text \<open>
  The keys of \<^verbatim>\<open>patternWeights\<close>.  The constructor's argument may leave out any field; the
  settings object it builds has a number in each of the three scalar fields that were absent
  and whatever table the caller gave.  The search reads a weight as a number, so the search
  functions below take settings whose table has a number at every key; \<open>numericSettings\<close>
  is the passage from the one to the other.  Numbers are modelled as exact rationals
  (all default weights are integers, the only fractions are the factors 0.8).
\<close>

datatype weight_key =
  LiveFive | LiveFour | DeadFour | LiveThree | DeadThree | LiveTwo | DeadTwo | OpponentThreat

record 'w settings =
  searchDepth :: int
  candidateCount :: int
  searchRange :: int
  patternWeights :: 'w

record settings_arg =
  argSearchDepth :: "int option"
  argCandidateCount :: "int option"
  argSearchRange :: "int option"
  argPatternWeights :: "(weight_key \<rightharpoonup> rat) option"

type_synonym built_settings = "(weight_key \<rightharpoonup> rat) settings"
type_synonym engine = "(weight_key \<Rightarrow> rat) settings"

definition defaultPatternWeights :: "weight_key \<rightharpoonup> rat" where
  "defaultPatternWeights =
     [LiveFive \<mapsto> 100000, LiveFour \<mapsto> 5000, DeadFour \<mapsto> 400, LiveThree \<mapsto> 400,
      DeadThree \<mapsto> 20, LiveTwo \<mapsto> 10, DeadTwo \<mapsto> 5, OpponentThreat \<mapsto> - (4 / 5)]"

text \<open>
  \<^verbatim>\<open>x || d\<close> on a field that may be absent: an absent field is \<^verbatim>\<open>undefined\<close>, and 0 is
  falsy as well.
\<close>

definition orDefault :: "int option \<Rightarrow> int \<Rightarrow> int" where
  "orDefault x d = (case x of None \<Rightarrow> d | Some v \<Rightarrow> if v = 0 then d else v)"

text \<open>
  The object literal lists the three scalar fields with their \<^verbatim>\<open>||\<close> fallbacks and the
  default table, and ends with the spread \<^verbatim>\<open>...settings\<close>, which overwrites each field that
  the argument has with the argument's own value.
\<close>

definition spread :: "'a option \<Rightarrow> 'a \<Rightarrow> 'a" where
  "spread x literal = (case x of None \<Rightarrow> literal | Some v \<Rightarrow> v)"

definition constructor :: "settings_arg \<Rightarrow> built_settings" where
  "constructor a =
     \<lparr> searchDepth = spread (argSearchDepth a) (orDefault (argSearchDepth a) 6),
       candidateCount = spread (argCandidateCount a) (orDefault (argCandidateCount a) 10),
       searchRange = spread (argSearchRange a) (orDefault (argSearchRange a) 2),
       patternWeights = spread (argPatternWeights a) defaultPatternWeights \<rparr>"

definition allKeys :: "weight_key list" where
  "allKeys = [LiveFive, LiveFour, DeadFour, LiveThree, DeadThree, LiveTwo, DeadTwo, OpponentThreat]"

definition numericSettings :: "built_settings \<Rightarrow> engine option" where
  "numericSettings s =
     (if list_all (\<lambda>k. patternWeights s k \<noteq> None) allKeys
      then Some \<lparr> searchDepth = searchDepth s, candidateCount = candidateCount s,
                  searchRange = searchRange s,
                  patternWeights = (\<lambda>k. case patternWeights s k of Some w \<Rightarrow> w | None \<Rightarrow> 0) \<rparr>
      else None)"

section \<open>Line encoder\<close>

definition encodeCell :: "int \<Rightarrow> int \<Rightarrow> char" where
  "encodeCell val player =
     (if val = player then CHR ''1'' else if val = 0 then CHR ''0'' else CHR ''2'')"

definition offBoard :: "int \<Rightarrow> int \<Rightarrow> int \<Rightarrow> int \<Rightarrow> int \<Rightarrow> bool" where
  "offBoard r c dr dc k \<longleftrightarrow>
     r + k * dr < 0 \<or> r + k * dr \<ge> boardSize \<or> c + k * dc < 0 \<or> c + k * dc \<ge> boardSize"

text \<open>
  The two boundary loops of \<^verbatim>\<open>getLineString\<close>.  The engine calls it with a cell of the
  board only, for which the offset 0 is never off the board; the bound \<open>k < 0\<close>
  (\<open>0 < k\<close>) of the recursion is that fact.
\<close>

function raiseMinK :: "int \<Rightarrow> int \<Rightarrow> int \<Rightarrow> int \<Rightarrow> int \<Rightarrow> int" where
  "raiseMinK r c dr dc k =
     (if k < 0 \<and> offBoard r c dr dc k then raiseMinK r c dr dc (k + 1) else k)"
  by pat_completeness auto
termination
  by (relation "measure (\<lambda>(r, c, dr, dc, k). nat (- k))") auto

function lowerMaxK :: "int \<Rightarrow> int \<Rightarrow> int \<Rightarrow> int \<Rightarrow> int \<Rightarrow> int" where
  "lowerMaxK r c dr dc k =
     (if 0 < k \<and> offBoard r c dr dc k then lowerMaxK r c dr dc (k - 1) else k)"
  by pat_completeness auto
termination
  by (relation "measure (\<lambda>(r, c, dr, dc, k). nat k)") auto

declare raiseMinK.simps [simp del] lowerMaxK.simps [simp del]

definition getLineString :: "board \<Rightarrow> int \<Rightarrow> int \<Rightarrow> int \<Rightarrow> int \<Rightarrow> int \<Rightarrow> bool \<Rightarrow> string" where
  "getLineString b r c dr dc player forceCenterAsPlayer =
     (let minK = raiseMinK r c dr dc (- 4);
          maxK = lowerMaxK r c dr dc 4;
          str = map (\<lambda>k. if k = 0 \<and> forceCenterAsPlayer then CHR ''1''
                          else encodeCell (b (r + k * dr) (c + k * dc)) player) [minK..maxK]
      in ''2'' @ str @ ''2'')"

definition getRowString :: "board \<Rightarrow> int \<Rightarrow> int \<Rightarrow> string" where
  "getRowString b row player =
     ''2'' @ map (\<lambda>col. encodeCell (b row col) player) [0..boardSize - 1] @ ''2''"

definition getColString :: "board \<Rightarrow> int \<Rightarrow> int \<Rightarrow> string" where
  "getColString b col player =
     ''2'' @ map (\<lambda>row. encodeCell (b row col) player) [0..boardSize - 1] @ ''2''"

definition getAllDiagonals :: "board \<Rightarrow> int \<Rightarrow> string list" where
  "getAllDiagonals b player =
     (let size = boardSize in
      map (\<lambda>k. ''2'' @ map (\<lambda>row. encodeCell (b row (row - k)) player)
                          (filter (\<lambda>row. row - k \<ge> 0 \<and> row - k < size) [0..size - 1]) @ ''2'')
          [- (size - 5)..size - 5]
      @
      map (\<lambda>k. ''2'' @ map (\<lambda>row. encodeCell (b row (k - row)) player)
                          (filter (\<lambda>row. k - row \<ge> 0 \<and> k - row < size) [0..size - 1]) @ ''2'')
          [4..2 * (size - 1) - 4])"

section \<open>Pattern classifier\<close>

text \<open>
  The table \<^verbatim>\<open>this.patterns\<close>: the pattern types in the order of the table, and the
  regular expression of each, an alternation of literal strings.  \<open>DeadTwo\<close> and
  \<open>OpponentThreat\<close> are weight keys without a pattern.
\<close>

definition patterns :: "weight_key list" where
  "patterns = [LiveFive, LiveFour, DeadFour, LiveThree, DeadThree, LiveTwo]"

fun regex :: "weight_key \<Rightarrow> string list" where
  "regex LiveFive = [''11111'']"
| "regex LiveFour = [''011110'']"
| "regex DeadFour = [''011112'', ''211110'', ''10111'', ''11011'', ''11101'']"
| "regex LiveThree = [''01110'', ''010110'', ''011010'']"
| "regex DeadThree = [''001112'', ''211100'', ''010112'', ''211010'', ''011012'', ''210110'',
                      ''10011'', ''11001'', ''10101'']"
| "regex LiveTwo = [''001100'', ''01100'', ''00110'', ''01010'', ''010010'']"
| "regex DeadTwo = []"
| "regex OpponentThreat = []"

text \<open>
  \<^verbatim>\<open>str.match(regex)\<close> for an alternation of literals: the leftmost position at which
  some alternative matches, and there the first alternative that does.
\<close>

fun matchHere :: "string list \<Rightarrow> string \<Rightarrow> string option" where
  "matchHere [] s = None"
| "matchHere (a # alts) s = (if take (length a) s = a then Some a else matchHere alts s)"

fun regexMatch :: "string list \<Rightarrow> string \<Rightarrow> string option" where
  "regexMatch alts [] = matchHere alts []"
| "regexMatch alts (c # cs) =
     (case matchHere alts (c # cs) of Some m \<Rightarrow> Some m | None \<Rightarrow> regexMatch alts cs)"

text \<open>\<^verbatim>\<open>matchedPart.replace(/1/g, 'x')\<close>\<close>

definition neutralize :: "string \<Rightarrow> string" where
  "neutralize m = map (\<lambda>ch. if ch = CHR ''1'' then CHR ''x'' else ch) m"

text \<open>\<^verbatim>\<open>str.replace(pat, rep)\<close> with a string pattern: the first occurrence only.\<close>

fun replaceFirst :: "string \<Rightarrow> string \<Rightarrow> string \<Rightarrow> string" where
  "replaceFirst pat rep [] = (if pat = [] then rep else [])"
| "replaceFirst pat rep (c # cs) =
     (if take (length pat) (c # cs) = pat then rep @ drop (length pat) (c # cs)
      else c # replaceFirst pat rep cs)"

definition ones :: "string \<Rightarrow> nat" where
  "ones s = length (filter (\<lambda>ch. ch = CHR ''1'') s)"

lemma matchHere_Some: "matchHere alts s = Some m \<Longrightarrow> m \<in> set alts \<and> take (length m) s = m"
  by (induction alts) (auto split: if_splits)

lemma regexMatch_Some:
  "regexMatch alts s = Some m \<Longrightarrow> m \<in> set alts \<and> (\<exists>pre post. s = pre @ m @ post)"
proof (induction s)
  case Nil
  then show ?case using matchHere_Some [of alts "[]" m] by auto
next
  case (Cons c cs)
  show ?case
  proof (cases "matchHere alts (c # cs)")
    case None
    with Cons.prems have "regexMatch alts cs = Some m" by simp
    with Cons.IH obtain pre post where "m \<in> set alts" "cs = pre @ m @ post" by blast
    then have "c # cs = (c # pre) @ m @ post" by simp
    with \<open>m \<in> set alts\<close> show ?thesis by blast
  next
    case (Some m')
    with Cons.prems have m: "matchHere alts (c # cs) = Some m" by simp
    from matchHere_Some [OF m] have "m \<in> set alts" "take (length m) (c # cs) = m" by auto
    then have "c # cs = [] @ m @ drop (length m) (c # cs)"
      by (metis append_Nil append_take_drop_id)
    with \<open>m \<in> set alts\<close> show ?thesis by blast
  qed
qed

lemma ones_append: "ones (xs @ ys) = ones xs + ones ys"
  by (simp add: ones_def)

lemma ones_replaceFirst:
  "s = pre @ m @ post \<Longrightarrow> ones (replaceFirst m rep s) + ones m = ones s + ones rep"
proof (induction s arbitrary: pre)
  case Nil
  then show ?case by (simp add: ones_def)
next
  case (Cons c cs)
  show ?case
  proof (cases "take (length m) (c # cs) = m")
    case True
    then have "c # cs = m @ drop (length m) (c # cs)"
      by (metis append_take_drop_id)
    then have "ones (c # cs) = ones m + ones (drop (length m) (c # cs))"
      by (metis ones_append)
    with True show ?thesis by (simp add: ones_append)
  next
    case False
    with Cons.prems have "pre \<noteq> []" by auto
    with Cons.prems obtain pre' where "pre = c # pre'" "cs = pre' @ m @ post"
      by (cases pre) auto
    from Cons.IH [OF this(2)] False show ?thesis by (simp add: ones_def)
  qed
qed

lemma ones_neutralize: "ones (neutralize m) = 0"
  by (simp add: ones_def neutralize_def filter_empty_conv)

lemma ones_regex: "m \<in> set (regex t) \<Longrightarrow> 0 < ones m"
  by (cases t) (auto simp: ones_def)

lemma ones_consumed:
  assumes "regexMatch (regex t) s = Some m"
  shows "ones (replaceFirst m (neutralize m) s) < ones s"
proof -
  from regexMatch_Some [OF assms] obtain pre post
    where m: "m \<in> set (regex t)" and s: "s = pre @ m @ post" by blast
  from ones_replaceFirst [OF s, of "neutralize m"] ones_regex [OF m] show ?thesis
    by (simp add: ones_neutralize)
qed

text \<open>
  The inner \<^verbatim>\<open>while (true)\<close> loop of \<^verbatim>\<open>calculateLineScore\<close> for one rule: match, add the
  rule's weight, neutralize the matched run in the working copy, repeat.  Each round turns at
  least one \<open>1\<close> of the working copy into \<open>x\<close>, which is why the loop ends.
\<close>

function scoreLoop :: "engine \<Rightarrow> weight_key \<Rightarrow> string \<Rightarrow> rat \<Rightarrow> rat" where
  "scoreLoop st t tempStr score =
     (case regexMatch (regex t) tempStr of
        None \<Rightarrow> score
      | Some matchedPart \<Rightarrow>
          scoreLoop st t (replaceFirst matchedPart (neutralize matchedPart) tempStr)
            (score + patternWeights st t))"
  by pat_completeness auto
termination
  by (relation "measure (\<lambda>(st, t, tempStr, score). ones tempStr)") (auto simp: ones_consumed)

declare scoreLoop.simps [simp del]

text \<open>
  \<^verbatim>\<open>calculateLineScore\<close>: for each rule of the table in order, if the line matches the rule,
  run the loop on a working copy that starts as the line itself.
\<close>

definition calculateLineScore :: "engine \<Rightarrow> string \<Rightarrow> rat" where
  "calculateLineScore st lineStr =
     fold (\<lambda>t score. case regexMatch (regex t) lineStr of
                        None \<Rightarrow> score
                      | Some matches \<Rightarrow> scoreLoop st t lineStr score)
          patterns 0"

section \<open>Position evaluator\<close>

definition evaluatePatternsForPlayer :: "engine \<Rightarrow> board \<Rightarrow> int \<Rightarrow> rat" where
  "evaluatePatternsForPlayer st b player =
     (let totalScore = fold (\<lambda>i total. total + calculateLineScore st (getRowString b i player))
                            [0..boardSize - 1] 0;
          totalScore = fold (\<lambda>i total. total + calculateLineScore st (getColString b i player))
                            [0..boardSize - 1] totalScore
      in fold (\<lambda>dStr total. total + calculateLineScore st dStr)
              (getAllDiagonals b player) totalScore)"

definition evaluateBoard :: "engine \<Rightarrow> board \<Rightarrow> int \<Rightarrow> rat" where
  "evaluateBoard st b player =
     (let myScore = evaluatePatternsForPlayer st b player;
          opponentScore = evaluatePatternsForPlayer st b (3 - player)
      in myScore - opponentScore * patternWeights st OpponentThreat)"

definition directions :: "(int \<times> int) list" where
  "directions = [(0, 1), (1, 0), (1, 1), (1, - 1)]"

text \<open>
  \<^verbatim>\<open>quickEvaluatePosition\<close> writes the player's stone into the board, reads the lines and
  writes 0 back; the model returns the score together with the board it leaves behind.
\<close>

definition quickEvaluatePosition :: "engine \<Rightarrow> board \<Rightarrow> int \<Rightarrow> int \<Rightarrow> int \<Rightarrow> rat \<times> board" where
  "quickEvaluatePosition st b row col player =
     (let b1 = setCell b row col player;
          score = fold (\<lambda>(dx, dy) score.
                          score + calculateLineScore st (getLineString b1 row col dx dy player False))
                       directions 0;
          opponent = 3 - player;
          score = fold (\<lambda>(dx, dy) score.
                          score + calculateLineScore st
                                    (getLineString b1 row col dx dy opponent True) * (4 / 5))
                       directions score;
          b2 = setCell b1 row col 0
      in (score, b2))"

section \<open>Candidate generator\<close>

definition hasNearbyPieces :: "board \<Rightarrow> int \<Rightarrow> int \<Rightarrow> int \<Rightarrow> bool" where
  "hasNearbyPieces b row col rng =
     (let startRow = max 0 (row - rng);
          endRow = min (boardSize - 1) (row + rng);
          startCol = max 0 (col - rng);
          endCol = min (boardSize - 1) (col + rng)
      in list_ex (\<lambda>r. list_ex (\<lambda>c. b r c \<noteq> 0) [startCol..endCol]) [startRow..endRow])"

text \<open>The cells in the order of the two nested \<^verbatim>\<open>for\<close> loops (row-major).\<close>

definition allCells :: "(int \<times> int) list" where
  "allCells = concat (map (\<lambda>row. map (\<lambda>col. (row, col)) [0..boardSize - 1]) [0..boardSize - 1])"

text \<open>
  The scan of \<^verbatim>\<open>generateCandidateMoves\<close>: it collects the moves with their scores (the
  array \<^verbatim>\<open>moves\<close> and the map \<^verbatim>\<open>moveScores\<close>, whose keys are the moves), and threads the
  board through the calls of \<^verbatim>\<open>quickEvaluatePosition\<close>.
\<close>

fun scanCells ::
  "engine \<Rightarrow> int \<Rightarrow> (int \<times> int) list \<Rightarrow> board \<Rightarrow> ((int \<times> int) \<times> rat) list
     \<Rightarrow> ((int \<times> int) \<times> rat) list \<times> board" where
  "scanCells st player [] b moves = (moves, b)"
| "scanCells st player ((row, col) # cells) b moves =
     (if b row col \<noteq> 0 then scanCells st player cells b moves
      else if \<not> hasNearbyPieces b row col (searchRange st) then scanCells st player cells b moves
      else (case quickEvaluatePosition st b row col player of
              (score, b') \<Rightarrow> scanCells st player cells b' (moves @ [((row, col), score)])))"

text \<open>\<^verbatim>\<open>moves.slice(0, n)\<close>: a negative end counts from the end of the array.\<close>

definition slice0 :: "int \<Rightarrow> 'a list \<Rightarrow> 'a list" where
  "slice0 n xs = (if n < 0 then take (nat (int (length xs) + n)) xs else take (nat n) xs)"

text \<open>
  \<^verbatim>\<open>moves.sort((a, b) => scoreB - scoreA)\<close> is a stable sort by descending score, that is,
  by ascending negated score.
\<close>

definition generateCandidateMoves :: "engine \<Rightarrow> board \<Rightarrow> int \<Rightarrow> (int \<times> int) list \<times> board" where
  "generateCandidateMoves st b player =
     (case scanCells st player allCells b [] of
        (moves, b') \<Rightarrow>
          (slice0 (candidateCount st) (map fst (sort_key (\<lambda>(move, score). - score) moves)), b'))"

section \<open>Terminal detector\<close>

text \<open>
  The inner \<^verbatim>\<open>while\<close> loop of \<^verbatim>\<open>hasFiveInARow\<close>.  It leaves the board after at most
  \<open>boardSize\<close> steps because the step is not (0, 0), which holds for the four directions
  of the table; the last conjunct of the guard is that fact.
\<close>

function countRun :: "board \<Rightarrow> int \<Rightarrow> int \<Rightarrow> int \<Rightarrow> int \<Rightarrow> int \<Rightarrow> nat \<Rightarrow> nat" where
  "countRun b player dx dy r c count =
     (if r \<ge> 0 \<and> r < boardSize \<and> c \<ge> 0 \<and> c < boardSize \<and> b r c = player \<and> (dx \<noteq> 0 \<or> dy \<noteq> 0)
      then countRun b player dx dy (r + dx) (c + dy) (count + 1) else count)"
  by pat_completeness auto
termination
  by (relation "measure (\<lambda>(b, player, dx, dy, r, c, count).
        if dx > 0 then nat (boardSize - r) else if dx < 0 then nat (r + 1)
        else if dy > 0 then nat (boardSize - c) else nat (c + 1))") auto

declare countRun.simps [simp del]

definition hasFiveInARow :: "board \<Rightarrow> int \<Rightarrow> bool" where
  "hasFiveInARow b player =
     list_ex (\<lambda>row. list_ex (\<lambda>col.
         b row col = player \<and>
         list_ex (\<lambda>(dx, dy). countRun b player dx dy (row + dx) (col + dy) 1 \<ge> 5) directions)
       [0..boardSize - 1]) [0..boardSize - 1]"

definition isBoardFull :: "board \<Rightarrow> bool" where
  "isBoardFull b =
     list_all (\<lambda>row. list_all (\<lambda>col. b row col \<noteq> 0) [0..boardSize - 1]) [0..boardSize - 1]"

definition checkWinner :: "board \<Rightarrow> int" where
  "checkWinner b =
     (if hasFiveInARow b 1 then 1
      else if hasFiveInARow b 2 then 2
      else if isBoardFull b then 0
      else - 1)"

section \<open>Alpha-Beta search\<close>

text \<open>
  The search compares scores with \<^verbatim>\<open>-Infinity\<close> and \<^verbatim>\<open>Infinity\<close>, so its numbers are the
  rationals with the two infinities.
\<close>

datatype number = NegInf | Num rat | PosInf

instantiation number :: "{linorder, uminus}"
begin

fun less_eq_number :: "number \<Rightarrow> number \<Rightarrow> bool" where
  "less_eq_number NegInf y = True"
| "less_eq_number (Num x) NegInf = False"
| "less_eq_number (Num x) (Num y) = (x \<le> y)"
| "less_eq_number (Num x) PosInf = True"
| "less_eq_number PosInf PosInf = True"
| "less_eq_number PosInf y = False"

definition less_number :: "number \<Rightarrow> number \<Rightarrow> bool" where
  "less_number x y \<longleftrightarrow> x \<le> y \<and> \<not> y \<le> x"

fun uminus_number :: "number \<Rightarrow> number" where
  "uminus_number NegInf = PosInf"
| "uminus_number (Num x) = Num (- x)"
| "uminus_number PosInf = NegInf"

instance
proof
  fix x y z :: number
  show "(x < y) = (x \<le> y \<and> \<not> y \<le> x)" by (rule less_number_def)
  show "x \<le> x" by (cases x) auto
  show "x \<le> y \<Longrightarrow> y \<le> z \<Longrightarrow> x \<le> z" by (cases x; cases y; cases z) auto
  show "x \<le> y \<Longrightarrow> y \<le> x \<Longrightarrow> x = y" by (cases x; cases y) auto
  show "x \<le> y \<or> y \<le> x" by (cases x; cases y) auto
qed

end

record counters =
  searchNodes :: nat
  pruningCount :: nat

text \<open>
  \<^verbatim>\<open>alphaBetaSearch\<close> and its \<^verbatim>\<open>for\<close> loop over the candidates.  Both return the score
  together with the board and the counters they leave behind.  The recursion of the engine
  ends at depth 0, at a decided position or at a position without candidates; a search depth
  below 1 never meets depth 0, so the model counts the nesting of calls down from a bound
  \<open>fuel\<close> and returns \<open>None\<close> when the bound is used up.
\<close>

fun alphaBetaSearch ::
  "nat \<Rightarrow> engine \<Rightarrow> board \<Rightarrow> int \<Rightarrow> number \<Rightarrow> number \<Rightarrow> int \<Rightarrow> counters
     \<Rightarrow> (number \<times> board \<times> counters) option"
and searchLoop ::
  "nat \<Rightarrow> engine \<Rightarrow> (int \<times> int) list \<Rightarrow> board \<Rightarrow> int \<Rightarrow> number \<Rightarrow> number \<Rightarrow> int \<Rightarrow> number
     \<Rightarrow> counters \<Rightarrow> (number \<times> board \<times> counters) option" where
  "alphaBetaSearch 0 st b depth alpha beta player cnt = None"
| "alphaBetaSearch (Suc fuel) st b depth alpha beta player cnt =
     (let cnt = cnt\<lparr>searchNodes := searchNodes cnt + 1\<rparr> in
      if depth = 0 then Some (Num (evaluateBoard st b player), b, cnt)
      else
        let winner = checkWinner b in
        if winner = player then Some (Num (10000 + of_int depth), b, cnt)
        else if winner = 3 - player then Some (Num (- 10000 - of_int depth), b, cnt)
        else
          (case generateCandidateMoves st b player of
             (candidates, b) \<Rightarrow>
               if length candidates = 0 then Some (Num 0, b, cnt)
               else searchLoop fuel st candidates b depth alpha beta player NegInf cnt))"
| "searchLoop fuel st [] b depth alpha beta player maxScore cnt = Some (maxScore, b, cnt)"
| "searchLoop fuel st ((row, col) # moves) b depth alpha beta player maxScore cnt =
     (case alphaBetaSearch fuel st (setCell b row col player) (depth - 1) (- beta) (- alpha)
             (3 - player) cnt of
        None \<Rightarrow> None
      | Some (result, b, cnt) \<Rightarrow>
          let score = - result;
              b = setCell b row col 0;
              maxScore = max maxScore score;
              alpha = max alpha score
          in if alpha \<ge> beta then Some (maxScore, b, cnt\<lparr>pruningCount := pruningCount cnt + 1\<rparr>)
             else searchLoop fuel st moves b depth alpha beta player maxScore cnt)"

record search_result =
  move :: "(int \<times> int) option"
  score :: number
  resultSearchNodes :: nat
  resultPruningCount :: nat

text \<open>
  The root loop of \<^verbatim>\<open>findBestMove\<close>.  \<^verbatim>\<open>bestMove\<close> starts as \<^verbatim>\<open>null\<close>, \<^verbatim>\<open>beta\<close> is
  \<^verbatim>\<open>Infinity\<close> throughout.
\<close>

fun rootLoop ::
  "nat \<Rightarrow> engine \<Rightarrow> (int \<times> int) list \<Rightarrow> board \<Rightarrow> int \<Rightarrow> (int \<times> int) option \<Rightarrow> number \<Rightarrow> number
     \<Rightarrow> counters \<Rightarrow> ((int \<times> int) option \<times> number \<times> board \<times> counters) option" where
  "rootLoop fuel st [] b player bestMove bestScore alpha cnt = Some (bestMove, bestScore, b, cnt)"
| "rootLoop fuel st ((row, col) # moves) b player bestMove bestScore alpha cnt =
     (case alphaBetaSearch fuel st (setCell b row col player) (searchDepth st - 1) (- PosInf)
             (- alpha) (3 - player) cnt of
        None \<Rightarrow> None
      | Some (result, b, cnt) \<Rightarrow>
          let score = - result;
              b = setCell b row col 0
          in if score > bestScore
             then rootLoop fuel st moves b player (Some (row, col)) score score cnt
             else rootLoop fuel st moves b player bestMove bestScore alpha cnt)"

text \<open>
  \<^verbatim>\<open>findBestMove\<close>: the counters of the instance are reset, whatever they were; the result
  is \<^verbatim>\<open>null\<close> (the inner \<open>None\<close>) or the result object.  The log and the clock are left out.
  The outer \<open>None\<close> is the used-up bound of the search.
\<close>

definition findBestMove ::
  "nat \<Rightarrow> engine \<Rightarrow> board \<Rightarrow> int \<Rightarrow> counters
     \<Rightarrow> (search_result option \<times> board \<times> counters) option" where
  "findBestMove fuel st b player cnt0 =
     (let cnt = \<lparr>searchNodes = 0, pruningCount = 0\<rparr> in
      case generateCandidateMoves st b player of
        (candidates, b) \<Rightarrow>
          if length candidates = 0 then Some (None, b, cnt)
          else (case rootLoop fuel st candidates b player None NegInf NegInf cnt of
                  None \<Rightarrow> None
                | Some (bestMove, bestScore, b, cnt) \<Rightarrow>
                    Some (Some \<lparr>move = bestMove, score = bestScore,
                                resultSearchNodes = searchNodes cnt,
                                resultPruningCount = pruningCount cnt\<rparr>, b, cnt)))"

section \<open>Concrete inputs and reference definitions\<close>

text \<open>The argument \<^verbatim>\<open>{}\<close> that the constructor takes by default, and the engine it builds.\<close>

definition noSettings :: settings_arg where
  "noSettings = \<lparr> argSearchDepth = None, argCandidateCount = None, argSearchRange = None,
                   argPatternWeights = None \<rparr>"

definition defaultEngine :: engine where
  "defaultEngine =
     \<lparr> searchDepth = 6, candidateCount = 10, searchRange = 2,
       patternWeights = (\<lambda>k. case defaultPatternWeights k of Some w \<Rightarrow> w | None \<Rightarrow> 0) \<rparr>"

text \<open>A board with one black stone in the centre.\<close>

definition stoneBoard :: board where
  "stoneBoard = setCell emptyBoard 7 7 1"

text \<open>Row 7 holds black stones in columns 1, 3, 4 and 5: one shape, a four with a gap.\<close>

definition jumpFourBoard :: board where
  "jumpFourBoard = setCell (setCell (setCell (setCell emptyBoard 7 1 1) 7 3 1) 7 4 1) 7 5 1"

text \<open>
  The sum of the pattern scores of the four lines through a cell, read for \<open>player\<close>
  with \<open>player\<close>'s stone on the cell.
\<close>

definition ownLineScores :: "engine \<Rightarrow> board \<Rightarrow> int \<Rightarrow> int \<Rightarrow> int \<Rightarrow> rat" where
  "ownLineScores st b row col player =
     sum_list (map (\<lambda>(dx, dy). calculateLineScore st
                      (getLineString (setCell b row col player) row col dx dy player False))
                   directions)"

text \<open>
  The value that the specification describes for \<^verbatim>\<open>quickEvaluatePosition\<close>: the own sum
  doubled, plus 0.8 times the sum for the opponent's stone on the same cell.
\<close>

definition quickEvaluateDoubled :: "engine \<Rightarrow> board \<Rightarrow> int \<Rightarrow> int \<Rightarrow> int \<Rightarrow> rat" where
  "quickEvaluateDoubled st b row col player =
     2 * ownLineScores st b row col player + (4 / 5) * ownLineScores st b row col (3 - player)"

text \<open>
  A player has five in a row when some cell of the board starts five consecutive cells of
  the player's along one of the four directions, all on the board.  A longer run contains such
  a five.
\<close>

definition fiveInRow :: "board \<Rightarrow> int \<Rightarrow> bool" where
  "fiveInRow b player =
     list_ex (\<lambda>(r, c). list_ex (\<lambda>(dx, dy).
         list_all (\<lambda>k. inBoard (r + k * dx) (c + k * dy) \<and> b (r + k * dx) (c + k * dy) = player)
           [0..4]) directions) allCells"

definition noEmptyCell :: "board \<Rightarrow> bool" where
  "noEmptyCell b = list_all (\<lambda>(r, c). b r c \<noteq> 0) allCells"

text \<open>Black has five in row 0 and white has five in row 2.\<close>

definition twoFivesBoard :: board where
  "twoFivesBoard =
     fold (\<lambda>c b. setCell b 2 c 2) [0..4] (fold (\<lambda>c b. setCell b 0 c 1) [0..4] emptyBoard)"

text \<open>
  The candidate moves as a function of the position alone: the empty cells with a stone
  nearby in scan order, their quick scores, the stable sort by descending score and the cut.
\<close>

definition nearbyEmptyCells :: "engine \<Rightarrow> board \<Rightarrow> (int \<times> int) list" where
  "nearbyEmptyCells st b =
     filter (\<lambda>(row, col). b row col = 0 \<and> hasNearbyPieces b row col (searchRange st)) allCells"

definition quickScore :: "engine \<Rightarrow> board \<Rightarrow> int \<Rightarrow> int \<times> int \<Rightarrow> rat" where
  "quickScore st b player = (\<lambda>(row, col). fst (quickEvaluatePosition st b row col player))"

definition candidates :: "engine \<Rightarrow> board \<Rightarrow> int \<Rightarrow> (int \<times> int) list" where
  "candidates st b player =
     slice0 (candidateCount st)
       (map fst (sort_key (\<lambda>(move, score). - score)
                   (map (\<lambda>m. (m, quickScore st b player m)) (nearbyEmptyCells st b))))"

text \<open>
  A bound on the nesting of \<^verbatim>\<open>alphaBetaSearch\<close> calls below a position: the depth when it
  is not negative; otherwise every call but those of a player 0 fills a cell.
\<close>

definition emptyCells :: "board \<Rightarrow> nat" where
  "emptyCells b = length (filter (\<lambda>(row, col). b row col = 0) allCells)"

definition searchBound :: "board \<Rightarrow> int \<Rightarrow> int \<Rightarrow> nat" where
  "searchBound b depth player =
     (if depth \<ge> 0 then nat depth else 2 * emptyCells b + (if player = 0 then 1 else 0))"

definition fuelFor :: "engine \<Rightarrow> nat" where
  "fuelFor st = nat \<bar>searchDepth st\<bar> + 2 * length allCells + 2"

text \<open>An engine that looks one move ahead and keeps a single candidate.\<close>

definition shallowEngine :: engine where
  "shallowEngine = defaultEngine\<lparr>searchDepth := 1, candidateCount := 1\<rparr>"

definition chebyshev :: "int \<times> int \<Rightarrow> int \<times> int \<Rightarrow> int" where
  "chebyshev m m' = max \<bar>fst m - fst m'\<bar> \<bar>snd m - snd m'\<bar>"

text \<open>
  The exhaustive search that the specification compares the engine with: negamax of the same
  depth over the same ordered candidates, with the same leaves, and no cut.  It returns the
  value of a position and the number of positions it visits, under the same bound on nested
  calls.  \<open>negamaxList\<close> is the maximum over the children, \<^verbatim>\<open>-Infinity\<close> for none.
\<close>

fun negamax :: "nat \<Rightarrow> engine \<Rightarrow> board \<Rightarrow> int \<Rightarrow> int \<Rightarrow> (number \<times> nat) option"
and negamaxList ::
  "nat \<Rightarrow> engine \<Rightarrow> (int \<times> int) list \<Rightarrow> board \<Rightarrow> int \<Rightarrow> int \<Rightarrow> (number \<times> nat) option" where
  "negamax 0 st b depth player = None"
| "negamax (Suc fuel) st b depth player =
     (if depth = 0 then Some (Num (evaluateBoard st b player), 1)
      else if checkWinner b = player then Some (Num (10000 + of_int depth), 1)
      else if checkWinner b = 3 - player then Some (Num (- 10000 - of_int depth), 1)
      else if fst (generateCandidateMoves st b player) = [] then Some (Num 0, 1)
      else (case negamaxList fuel st (fst (generateCandidateMoves st b player)) b depth player of
              None \<Rightarrow> None
            | Some (v, n) \<Rightarrow> Some (v, n + 1)))"
| "negamaxList fuel st [] b depth player = Some (NegInf, 0)"
| "negamaxList fuel st ((row, col) # moves) b depth player =
     (case negamax fuel st (setCell b row col player) (depth - 1) (3 - player) of
        None \<Rightarrow> None
      | Some (v1, n1) \<Rightarrow>
          (case negamaxList fuel st moves b depth player of
             None \<Rightarrow> None
           | Some (v2, n2) \<Rightarrow> Some (max (- v1) v2, n1 + n2)))"

text \<open>
  The exhaustive root: the first candidate of strictly greatest value, its value, and the
  number of positions visited below the root.
\<close>

fun exhaustiveRoot ::
  "nat \<Rightarrow> engine \<Rightarrow> (int \<times> int) list \<Rightarrow> board \<Rightarrow> int \<Rightarrow> (int \<times> int) option \<Rightarrow> number \<Rightarrow> nat
     \<Rightarrow> ((int \<times> int) option \<times> number \<times> nat) option" where
  "exhaustiveRoot fuel st [] b player bestMove bestScore nodes = Some (bestMove, bestScore, nodes)"
| "exhaustiveRoot fuel st ((row, col) # moves) b player bestMove bestScore nodes =
     (case negamax fuel st (setCell b row col player) (searchDepth st - 1) (3 - player) of
        None \<Rightarrow> None
      | Some (v, n) \<Rightarrow>
          if - v > bestScore
          then exhaustiveRoot fuel st moves b player (Some (row, col)) (- v) (nodes + n)
          else exhaustiveRoot fuel st moves b player bestMove bestScore (nodes + n))"

definition exhaustiveBestMove ::
  "nat \<Rightarrow> engine \<Rightarrow> board \<Rightarrow> int \<Rightarrow> ((int \<times> int) option \<times> number \<times> nat) option option" where
  "exhaustiveBestMove fuel st b player =
     (let candidates = fst (generateCandidateMoves st b player) in
      if candidates = [] then Some None
      else (case exhaustiveRoot fuel st candidates b player None NegInf 0 of
              None \<Rightarrow> None
            | Some r \<Rightarrow> Some (Some r)))"

text \<open>
  How a fail-soft result \<open>r\<close> for the window \<open>(a, b)\<close> relates to the exact value
  \<open>v\<close>: exact inside the window, a bound on the right side outside.
\<close>

definition failSoft :: "number \<Rightarrow> number \<Rightarrow> number \<Rightarrow> number \<Rightarrow> bool" where
  "failSoft a b v r \<longleftrightarrow> (r \<le> a \<longrightarrow> v \<le> r) \<and> (a < r \<and> r < b \<longrightarrow> r = v) \<and> (b \<le> r \<longrightarrow> r \<le> v)"

definition finite_number :: "number \<Rightarrow> bool" where
  "finite_number x \<longleftrightarrow> (\<exists>q. x = Num q)"

text \<open>
  The log of the invocations of \<^verbatim>\<open>alphaBetaSearch\<close>: the search written once more without
  counters and without the board it hands back, returning the score together with the list of
  the calls made, each call entered once with its position, depth and player, its own entry
  first and then the entries of the calls below it in the order they are made.
  \<open>rootCalls\<close> is the same for the root loop, which makes calls but is not one.
\<close>

type_synonym invocation = "board \<times> int \<times> int"

fun searchCalls ::
  "nat \<Rightarrow> engine \<Rightarrow> board \<Rightarrow> int \<Rightarrow> number \<Rightarrow> number \<Rightarrow> int \<Rightarrow> (number \<times> invocation list) option"
and loopCalls ::
  "nat \<Rightarrow> engine \<Rightarrow> (int \<times> int) list \<Rightarrow> board \<Rightarrow> int \<Rightarrow> number \<Rightarrow> number \<Rightarrow> int \<Rightarrow> number
     \<Rightarrow> (number \<times> invocation list) option" where
  "searchCalls 0 st b depth alpha beta player = None"
| "searchCalls (Suc fuel) st b depth alpha beta player =
     (if depth = 0 then Some (Num (evaluateBoard st b player), [(b, depth, player)])
      else if checkWinner b = player then Some (Num (10000 + of_int depth), [(b, depth, player)])
      else if checkWinner b = 3 - player
      then Some (Num (- 10000 - of_int depth), [(b, depth, player)])
      else if fst (generateCandidateMoves st b player) = []
      then Some (Num 0, [(b, depth, player)])
      else (case loopCalls fuel st (fst (generateCandidateMoves st b player)) b depth alpha beta
                   player NegInf of
              None \<Rightarrow> None
            | Some (v, calls) \<Rightarrow> Some (v, (b, depth, player) # calls)))"
| "loopCalls fuel st [] b depth alpha beta player maxScore = Some (maxScore, [])"
| "loopCalls fuel st ((row, col) # moves) b depth alpha beta player maxScore =
     (case searchCalls fuel st (setCell b row col player) (depth - 1) (- beta) (- alpha)
             (3 - player) of
        None \<Rightarrow> None
      | Some (result, calls1) \<Rightarrow>
          if max alpha (- result) \<ge> beta then Some (max maxScore (- result), calls1)
          else (case loopCalls fuel st moves b depth (max alpha (- result)) beta player
                       (max maxScore (- result)) of
                  None \<Rightarrow> None
                | Some (v, calls2) \<Rightarrow> Some (v, calls1 @ calls2)))"

fun rootCalls ::
  "nat \<Rightarrow> engine \<Rightarrow> (int \<times> int) list \<Rightarrow> board \<Rightarrow> int \<Rightarrow> number \<Rightarrow> number
     \<Rightarrow> invocation list option" where
  "rootCalls fuel st [] b player bestScore alpha = Some []"
| "rootCalls fuel st ((row, col) # moves) b player bestScore alpha =
     (case searchCalls fuel st (setCell b row col player) (searchDepth st - 1) NegInf (- alpha)
             (3 - player) of
        None \<Rightarrow> None
      | Some (result, calls1) \<Rightarrow>
          (case (if - result > bestScore
                 then rootCalls fuel st moves b player (- result) (- result)
                 else rootCalls fuel st moves b player bestScore alpha) of
             None \<Rightarrow> None
           | Some calls2 \<Rightarrow> Some (calls1 @ calls2)))"

definition findBestMoveCalls :: "nat \<Rightarrow> engine \<Rightarrow> board \<Rightarrow> int \<Rightarrow> invocation list option" where
  "findBestMoveCalls fuel st b player =
     rootCalls fuel st (fst (generateCandidateMoves st b player)) b player NegInf NegInf"

section \<open>Basic facts\<close>

lemma numericSettings_default: "numericSettings (constructor noSettings) = Some defaultEngine"
  by (simp add: numericSettings_def constructor_def noSettings_def defaultEngine_def spread_def
      orDefault_def allKeys_def defaultPatternWeights_def)

lemma setCell_same: "setCell b r c v r c = v"
  by (simp add: setCell_def)

lemma setCell_other: "(r', c') \<noteq> (r, c) \<Longrightarrow> setCell b r c v r' c' = b r' c'"
  by (auto simp: setCell_def)

lemma setCell_restore: "b r c = 0 \<Longrightarrow> setCell (setCell b r c v) r c 0 = b"
  by (auto simp: setCell_def fun_eq_iff)

lemma getLineString_forced:
  assumes "dr \<noteq> 0 \<or> dc \<noteq> 0"
  shows "getLineString (setCell b r c v) r c dr dc player True
       = getLineString (setCell b r c player) r c dr dc player False"
proof -
  have "(if k = 0 \<and> True then CHR ''1''
         else encodeCell (setCell b r c v (r + k * dr) (c + k * dc)) player)
      = (if k = 0 \<and> False then CHR ''1''
         else encodeCell (setCell b r c player (r + k * dr) (c + k * dc)) player)" for k
    using assms by (cases "k = 0") (auto simp: setCell_def encodeCell_def)
  then show ?thesis by (simp add: getLineString_def Let_def)
qed

lemma quickEvaluatePosition_eq:
  "quickEvaluatePosition st b row col player =
     (ownLineScores st b row col player + (4 / 5) * ownLineScores st b row col (3 - player),
      setCell (setCell b row col player) row col 0)"
  by (simp add: quickEvaluatePosition_def ownLineScores_def directions_def Let_def
      getLineString_forced algebra_simps)

section \<open>Facts about the terminal detector\<close>

lemma set_allCells: "set allCells = {(r, c). inBoard r c}"
  by (auto simp: allCells_def inBoard_def boardSize_def image_iff)

lemma countRun_add: "countRun b p dx dy r c (n + m) = n + countRun b p dx dy r c m"
proof (induction b p dx dy r c m rule: countRun.induct)
  case (1 b player dx dy r c count)
  show ?case
  proof (cases "r \<ge> 0 \<and> r < boardSize \<and> c \<ge> 0 \<and> c < boardSize \<and> b r c = player \<and> (dx \<noteq> 0 \<or> dy \<noteq> 0)")
    case True
    have "countRun b player dx dy r c (n + count)
        = countRun b player dx dy (r + dx) (c + dy) (n + (count + 1))"
      using True by (subst countRun.simps) simp
    also have "\<dots> = n + countRun b player dx dy (r + dx) (c + dy) (count + 1)"
      by (rule "1.IH" [OF True])
    also have "\<dots> = n + countRun b player dx dy r c count"
      using True by (subst (2) countRun.simps) simp
    finally show ?thesis .
  next
    case False
    then show ?thesis by (subst (1 2) countRun.simps) auto
  qed
qed

lemma countRun_ge:
  assumes "dx \<noteq> 0 \<or> dy \<noteq> 0"
  shows "m \<le> countRun b p dx dy r c 0 \<longleftrightarrow>
         (\<forall>k<m. inBoard (r + int k * dx) (c + int k * dy) \<and> b (r + int k * dx) (c + int k * dy) = p)"
proof (induction m arbitrary: r c)
  case 0
  show ?case by simp
next
  case (Suc m)
  let ?ok = "\<lambda>r c. inBoard r c \<and> b r c = p"
  show ?case
  proof (cases "?ok r c")
    case True
    have "countRun b p dx dy r c 0 = countRun b p dx dy (r + dx) (c + dy) (1 + 0)"
      using True assms by (subst countRun.simps) (simp add: inBoard_def)
    also have "\<dots> = 1 + countRun b p dx dy (r + dx) (c + dy) 0"
      by (rule countRun_add)
    finally have "Suc m \<le> countRun b p dx dy r c 0 \<longleftrightarrow> m \<le> countRun b p dx dy (r + dx) (c + dy) 0"
      by simp
    also have "\<dots> \<longleftrightarrow> (\<forall>k<m. ?ok (r + dx + int k * dx) (c + dy + int k * dy))"
      by (rule Suc.IH)
    also have "\<dots> \<longleftrightarrow> (\<forall>k<Suc m. ?ok (r + int k * dx) (c + int k * dy))"
    proof
      assume h: "\<forall>k<m. ?ok (r + dx + int k * dx) (c + dy + int k * dy)"
      show "\<forall>k<Suc m. ?ok (r + int k * dx) (c + int k * dy)"
      proof (intro allI impI)
        fix k assume "k < Suc m"
        show "?ok (r + int k * dx) (c + int k * dy)"
        proof (cases k)
          case 0
          with True show ?thesis by simp
        next
          case (Suc j)
          with \<open>k < Suc m\<close> h have "?ok (r + dx + int j * dx) (c + dy + int j * dy)" by simp
          with Suc show ?thesis by (simp add: algebra_simps)
        qed
      qed
    next
      assume h: "\<forall>k<Suc m. ?ok (r + int k * dx) (c + int k * dy)"
      show "\<forall>k<m. ?ok (r + dx + int k * dx) (c + dy + int k * dy)"
      proof (intro allI impI)
        fix k assume "k < m"
        with h have "?ok (r + int (Suc k) * dx) (c + int (Suc k) * dy)" by blast
        then show "?ok (r + dx + int k * dx) (c + dy + int k * dy)" by (simp add: algebra_simps)
      qed
    qed
    finally show ?thesis .
  next
    case False
    then have "countRun b p dx dy r c 0 = 0"
      by (subst countRun.simps) (auto simp: inBoard_def)
    moreover from False have "\<not> (\<forall>k<Suc m. ?ok (r + int k * dx) (c + int k * dy))"
      by (auto intro: exI [of _ 0])
    ultimately show ?thesis by simp
  qed
qed

lemma run_from_cell:
  assumes "dx \<noteq> 0 \<or> dy \<noteq> 0" and "inBoard r c"
  shows "b r c = p \<and> 5 \<le> countRun b p dx dy (r + dx) (c + dy) 1 \<longleftrightarrow>
         list_all (\<lambda>k. inBoard (r + k * dx) (c + k * dy) \<and> b (r + k * dx) (c + k * dy) = p) [0..4]"
proof -
  have upto: "[0..4] = [0, 1, 2, 3, 4::int]" by code_simp
  have "countRun b p dx dy (r + dx) (c + dy) (1 + 0) = 1 + countRun b p dx dy (r + dx) (c + dy) 0"
    by (rule countRun_add)
  then have "5 \<le> countRun b p dx dy (r + dx) (c + dy) 1 \<longleftrightarrow> 4 \<le> countRun b p dx dy (r + dx) (c + dy) 0"
    by simp
  also have "\<dots> \<longleftrightarrow> (\<forall>k<4. inBoard (r + dx + int k * dx) (c + dy + int k * dy)
                          \<and> b (r + dx + int k * dx) (c + dy + int k * dy) = p)"
    by (rule countRun_ge [OF assms(1)])
  also have "\<dots> \<longleftrightarrow> (\<forall>k\<in>{0, 1, 2, 3::nat}. inBoard (r + dx + int k * dx) (c + dy + int k * dy)
                          \<and> b (r + dx + int k * dx) (c + dy + int k * dy) = p)"
  proof -
    have "{k::nat. k < 4} = {0, 1, 2, 3}" by auto
    then show ?thesis by (metis (no_types, lifting) mem_Collect_eq)
  qed
  finally show ?thesis using assms(2) by (simp add: upto algebra_simps)
qed

lemma list_ex_allCells:
  "list_ex (\<lambda>row. list_ex (\<lambda>col. P row col) [0..boardSize - 1]) [0..boardSize - 1]
     \<longleftrightarrow> list_ex (\<lambda>(r, c). P r c) allCells"
  by (auto simp: allCells_def list_ex_iff)

lemma list_all_allCells:
  "list_all (\<lambda>row. list_all (\<lambda>col. P row col) [0..boardSize - 1]) [0..boardSize - 1]
     \<longleftrightarrow> list_all (\<lambda>(r, c). P r c) allCells"
  by (auto simp: allCells_def list_all_iff)

lemma hasFiveInARow_iff: "hasFiveInARow b p \<longleftrightarrow> fiveInRow b p"
proof -
  have cell: "(b r c = p \<and> list_ex (\<lambda>(dx, dy). 5 \<le> countRun b p dx dy (r + dx) (c + dy) 1) directions)
      \<longleftrightarrow> list_ex (\<lambda>(dx, dy). list_all (\<lambda>k. inBoard (r + k * dx) (c + k * dy)
                                  \<and> b (r + k * dx) (c + k * dy) = p) [0..4]) directions"
    if "inBoard r c" for r c
  proof -
    have "(b r c = p \<and> 5 \<le> countRun b p dx dy (r + dx) (c + dy) 1)
        \<longleftrightarrow> list_all (\<lambda>k. inBoard (r + k * dx) (c + k * dy)
                          \<and> b (r + k * dx) (c + k * dy) = p) [0..4]"
      if "(dx, dy) \<in> set directions" for dx dy
    proof (rule run_from_cell [OF _ \<open>inBoard r c\<close>])
      from that show "dx \<noteq> 0 \<or> dy \<noteq> 0" by (auto simp: directions_def)
    qed
    then show ?thesis unfolding list_ex_iff by blast
  qed
  have "hasFiveInARow b p \<longleftrightarrow>
        list_ex (\<lambda>(r, c). b r c = p
           \<and> list_ex (\<lambda>(dx, dy). 5 \<le> countRun b p dx dy (r + dx) (c + dy) 1) directions) allCells"
    unfolding hasFiveInARow_def by (rule list_ex_allCells)
  also have "\<dots> \<longleftrightarrow> fiveInRow b p"
    unfolding fiveInRow_def list_ex_iff [of _ allCells] set_allCells
    using cell by blast
  finally show ?thesis .
qed

lemma isBoardFull_iff: "isBoardFull b \<longleftrightarrow> noEmptyCell b"
  unfolding isBoardFull_def noEmptyCell_def by (rule list_all_allCells)

section \<open>Facts about the candidate generator\<close>

lemma quickEvaluatePosition_empty:
  "b row col = 0 \<Longrightarrow> quickEvaluatePosition st b row col player = (quickScore st b player (row, col), b)"
  by (simp add: quickScore_def quickEvaluatePosition_eq setCell_restore)

lemma scanCells_eq:
  "scanCells st player cells b moves =
     (moves @ map (\<lambda>m. (m, quickScore st b player m))
                (filter (\<lambda>(row, col). b row col = 0 \<and> hasNearbyPieces b row col (searchRange st)) cells),
      b)"
proof (induction cells arbitrary: moves)
  case Nil
  show ?case by simp
next
  case (Cons cell cells)
  obtain row col where cell: "cell = (row, col)" by (cases cell)
  show ?case unfolding cell
    by (simp add: Cons.IH quickEvaluatePosition_empty)
qed

lemma generateCandidateMoves_eq:
  "generateCandidateMoves st b player = (candidates st b player, b)"
  by (simp add: generateCandidateMoves_def scanCells_eq candidates_def nearbyEmptyCells_def)

lemma set_slice0: "set (slice0 n xs) \<subseteq> set xs"
  by (auto simp: slice0_def dest: in_set_takeD)

lemma candidates_subset: "set (candidates st b player) \<subseteq> set (nearbyEmptyCells st b)"
proof -
  have "set (map fst (sort_key (\<lambda>(move, score). - score)
                   (map (\<lambda>m. (m, quickScore st b player m)) (nearbyEmptyCells st b))))
        = set (nearbyEmptyCells st b)"
    by (simp add: image_image)
  with set_slice0 show ?thesis unfolding candidates_def by metis
qed

lemma candidates_empty_cell:
  assumes "(row, col) \<in> set (candidates st b player)"
  shows "inBoard row col \<and> b row col = 0"
  using assms candidates_subset [of st b player] set_allCells
  by (auto simp: nearbyEmptyCells_def)

section \<open>Facts about the search\<close>

lemma alphaBetaSearch_Suc:
  "alphaBetaSearch (Suc fuel) st b depth alpha beta player cnt =
     (if depth = 0
      then Some (Num (evaluateBoard st b player), b, cnt\<lparr>searchNodes := searchNodes cnt + 1\<rparr>)
      else if checkWinner b = player
      then Some (Num (10000 + of_int depth), b, cnt\<lparr>searchNodes := searchNodes cnt + 1\<rparr>)
      else if checkWinner b = 3 - player
      then Some (Num (- 10000 - of_int depth), b, cnt\<lparr>searchNodes := searchNodes cnt + 1\<rparr>)
      else if candidates st b player = []
      then Some (Num 0, b, cnt\<lparr>searchNodes := searchNodes cnt + 1\<rparr>)
      else searchLoop fuel st (candidates st b player) b depth alpha beta player NegInf
             (cnt\<lparr>searchNodes := searchNodes cnt + 1\<rparr>))"
  by (simp add: Let_def generateCandidateMoves_eq)

lemma searchLoop_Cons:
  "searchLoop fuel st ((row, col) # moves) b depth alpha beta player maxScore cnt =
     (case alphaBetaSearch fuel st (setCell b row col player) (depth - 1) (- beta) (- alpha)
             (3 - player) cnt of
        None \<Rightarrow> None
      | Some (result, b', cnt') \<Rightarrow>
          if max alpha (- result) \<ge> beta
          then Some (max maxScore (- result), setCell b' row col 0,
                     cnt'\<lparr>pruningCount := pruningCount cnt' + 1\<rparr>)
          else searchLoop fuel st moves (setCell b' row col 0) depth (max alpha (- result)) beta
                 player (max maxScore (- result)) cnt')"
  by (simp add: Let_def split: option.splits)

lemma searchLoop_restores:
  assumes ab: "\<And>b depth alpha beta player cnt result b' cnt'.
     alphaBetaSearch fuel st b depth alpha beta player cnt = Some (result, b', cnt') \<Longrightarrow> b' = b"
  shows "\<forall>(row, col)\<in>set moves. b row col = 0 \<Longrightarrow>
         searchLoop fuel st moves b depth alpha beta player maxScore cnt = Some (result, b', cnt')
         \<Longrightarrow> b' = b"
proof (induction moves arbitrary: alpha maxScore cnt)
  case Nil
  then show ?case by simp
next
  case (Cons m moves)
  obtain row col where m: "m = (row, col)" by (cases m)
  from Cons.prems(1) m have empty: "b row col = 0" and rest: "\<forall>(row, col)\<in>set moves. b row col = 0"
    by auto
  from Cons.prems(2) obtain r1 b1 c1 where
    call: "alphaBetaSearch fuel st (setCell b row col player) (depth - 1) (- beta) (- alpha)
             (3 - player) cnt = Some (r1, b1, c1)"
    unfolding m searchLoop_Cons by (auto split: option.splits)
  from ab [OF call] have restored: "setCell b1 row col 0 = b" by (simp add: setCell_restore empty)
  show ?case
  proof (cases "max alpha (- r1) \<ge> beta")
    case True
    with Cons.prems(2) call restored show ?thesis
      unfolding m searchLoop_Cons by simp
  next
    case False
    with Cons.prems(2) call restored
    have "searchLoop fuel st moves b depth (max alpha (- r1)) beta player (max maxScore (- r1)) c1
            = Some (result, b', cnt')"
      unfolding m searchLoop_Cons by simp
    from Cons.IH [OF rest this] show ?thesis .
  qed
qed

lemma candidates_all_empty: "\<forall>(row, col)\<in>set (candidates st b player). b row col = 0"
  using candidates_empty_cell by blast

lemma alphaBetaSearch_restores:
  "alphaBetaSearch fuel st b depth alpha beta player cnt = Some (result, b', cnt') \<Longrightarrow> b' = b"
proof (induction fuel arbitrary: b depth alpha beta player cnt result b' cnt')
  case 0
  then show ?case by simp
next
  case (Suc fuel)
  from Suc.prems show ?case
    unfolding alphaBetaSearch_Suc
    by (auto split: if_splits
        dest: searchLoop_restores [OF Suc.IH candidates_all_empty, rotated])
qed


lemma searchLoop_mono:
  assumes ab: "\<And>b depth alpha beta player cnt x.
     alphaBetaSearch fuel st b depth alpha beta player cnt = Some x
     \<Longrightarrow> alphaBetaSearch fuel' st b depth alpha beta player cnt = Some x"
  shows "searchLoop fuel st moves b depth alpha beta player maxScore cnt = Some x
         \<Longrightarrow> searchLoop fuel' st moves b depth alpha beta player maxScore cnt = Some x"
proof (induction moves arbitrary: b alpha maxScore cnt)
  case Nil
  then show ?case by simp
next
  case (Cons m moves)
  obtain row col where m: "m = (row, col)" by (cases m)
  from Cons.prems obtain r1 b1 c1 where
    call: "alphaBetaSearch fuel st (setCell b row col player) (depth - 1) (- beta) (- alpha)
             (3 - player) cnt = Some (r1, b1, c1)"
    unfolding m searchLoop_Cons by (auto split: option.splits)
  note call' = ab [OF call]
  show ?case
  proof (cases "max alpha (- r1) \<ge> beta")
    case True
    with Cons.prems call call' show ?thesis
      unfolding m searchLoop_Cons by simp
  next
    case False
    with Cons.prems call
    have "searchLoop fuel st moves (setCell b1 row col 0) depth (max alpha (- r1)) beta player
            (max maxScore (- r1)) c1 = Some x"
      unfolding m searchLoop_Cons by simp
    from Cons.IH [OF this] False call' show ?thesis
      unfolding m searchLoop_Cons by simp
  qed
qed

lemma alphaBetaSearch_mono:
  "alphaBetaSearch fuel st b depth alpha beta player cnt = Some x \<Longrightarrow> fuel \<le> fuel'
   \<Longrightarrow> alphaBetaSearch fuel' st b depth alpha beta player cnt = Some x"
proof (induction fuel arbitrary: fuel' b depth alpha beta player cnt x)
  case 0
  then show ?case by simp
next
  case (Suc fuel)
  from Suc.prems(2) obtain g where g: "fuel' = Suc g" and le: "fuel \<le> g"
    by (cases fuel') auto
  have step: "alphaBetaSearch fuel st b depth alpha beta player cnt = Some x
     \<Longrightarrow> alphaBetaSearch g st b depth alpha beta player cnt = Some x"
    for b depth alpha beta player cnt x
    using Suc.IH le by blast
  from Suc.prems(1) show ?case
    unfolding g alphaBetaSearch_Suc
    by (auto split: if_splits intro: searchLoop_mono [OF step])
qed

lemma emptyCells_setCell:
  assumes "inBoard row col" and "b row col = 0" and "player \<noteq> 0"
  shows "emptyCells (setCell b row col player) < emptyCells b"
proof -
  let ?P = "\<lambda>(r, c). b r c = 0"
  let ?Q = "\<lambda>(r, c). setCell b row col player r c = 0"
  have sub: "?Q x \<Longrightarrow> ?P x" for x
    using assms(3) by (cases x) (auto simp: setCell_def split: if_splits)
  then have "filter ?Q allCells = filter ?Q (filter ?P allCells)"
    by (auto intro: filter_cong)
  moreover have "(row, col) \<in> set (filter ?P allCells)"
    using assms(1,2) by (simp add: set_allCells)
  moreover have "\<not> ?Q (row, col)"
    using assms(3) by (simp add: setCell_same)
  ultimately have "length (filter ?Q allCells) < length (filter ?P allCells)"
    using length_filter_less [of "(row, col)" "filter ?P allCells" ?Q] by simp
  then show ?thesis by (simp add: emptyCells_def)
qed

lemma setCell_zero: "b row col = 0 \<Longrightarrow> setCell b row col 0 = b"
  by (auto simp: setCell_def fun_eq_iff)

lemma searchBound_child:
  assumes "depth \<noteq> 0" and "inBoard row col" and "b row col = 0"
  shows "searchBound (setCell b row col player) (depth - 1) (3 - player) < searchBound b depth player"
proof (cases "depth > 0")
  case True
  then show ?thesis by (simp add: searchBound_def)
next
  case False
  with assms(1) have neg: "depth < 0" by simp
  show ?thesis
  proof (cases "player = 0")
    case True
    with neg assms(3) show ?thesis by (simp add: searchBound_def setCell_zero)
  next
    case False
    from emptyCells_setCell [of row col b player] assms(2,3) False neg show ?thesis
      by (auto simp: searchBound_def)
  qed
qed

lemma searchLoop_total:
  assumes ab: "\<And>b depth alpha beta player cnt.
     searchBound b depth player < fuel
     \<Longrightarrow> alphaBetaSearch fuel st b depth alpha beta player cnt \<noteq> None"
    and "depth \<noteq> 0" and "searchBound b depth player \<le> fuel"
  shows "\<forall>(row, col)\<in>set moves. inBoard row col \<and> b row col = 0
         \<Longrightarrow> searchLoop fuel st moves b depth alpha beta player maxScore cnt \<noteq> None"
proof (induction moves arbitrary: alpha maxScore cnt)
  case Nil
  show ?case by simp
next
  case (Cons m moves)
  obtain row col where m: "m = (row, col)" by (cases m)
  from Cons.prems m have cell: "inBoard row col" "b row col = 0"
    and rest: "\<forall>(row, col)\<in>set moves. inBoard row col \<and> b row col = 0"
    by auto
  from searchBound_child [of depth row col b player] assms(2,3) cell
  have "searchBound (setCell b row col player) (depth - 1) (3 - player) < fuel" by simp
  from ab [OF this] obtain r1 b1 c1 where
    call: "alphaBetaSearch fuel st (setCell b row col player) (depth - 1) (- beta) (- alpha)
             (3 - player) cnt = Some (r1, b1, c1)"
    by (metis not_None_eq prod_cases3)
  from alphaBetaSearch_restores [OF call] have restored: "setCell b1 row col 0 = b"
    by (simp add: setCell_restore cell)
  from Cons.IH [OF rest] call restored show ?case
    unfolding m searchLoop_Cons by simp
qed

lemma alphaBetaSearch_total:
  "searchBound b depth player < fuel
   \<Longrightarrow> alphaBetaSearch fuel st b depth alpha beta player cnt \<noteq> None"
proof (induction fuel arbitrary: b depth alpha beta player cnt)
  case 0
  then show ?case by simp
next
  case (Suc fuel)
  from Suc.prems have le: "searchBound b depth player \<le> fuel" by simp
  have cands: "\<forall>(row, col)\<in>set (candidates st b player). inBoard row col \<and> b row col = 0"
    using candidates_empty_cell by blast
  show ?case
    unfolding alphaBetaSearch_Suc
    using searchLoop_total [OF Suc.IH _ le cands] by simp
qed

lemma searchLoop_nodes:
  assumes ab: "\<And>b depth alpha beta player cnt result b' cnt'.
     alphaBetaSearch fuel st b depth alpha beta player cnt = Some (result, b', cnt')
     \<Longrightarrow> searchNodes cnt < searchNodes cnt'"
  shows "searchLoop fuel st moves b depth alpha beta player maxScore cnt = Some (result, b', cnt')
         \<Longrightarrow> searchNodes cnt \<le> searchNodes cnt'"
proof (induction moves arbitrary: b alpha maxScore cnt)
  case Nil
  then show ?case by simp
next
  case (Cons m moves)
  obtain row col where m: "m = (row, col)" by (cases m)
  from Cons.prems obtain r1 b1 c1 where
    call: "alphaBetaSearch fuel st (setCell b row col player) (depth - 1) (- beta) (- alpha)
             (3 - player) cnt = Some (r1, b1, c1)"
    unfolding m searchLoop_Cons by (auto split: option.splits)
  note less = ab [OF call]
  show ?case
  proof (cases "max alpha (- r1) \<ge> beta")
    case True
    with Cons.prems call less show ?thesis
      unfolding m searchLoop_Cons by auto
  next
    case False
    with Cons.prems call
    have "searchLoop fuel st moves (setCell b1 row col 0) depth (max alpha (- r1)) beta player
            (max maxScore (- r1)) c1 = Some (result, b', cnt')"
      unfolding m searchLoop_Cons by simp
    from Cons.IH [OF this] less show ?thesis by simp
  qed
qed

lemma alphaBetaSearch_nodes:
  "alphaBetaSearch fuel st b depth alpha beta player cnt = Some (result, b', cnt')
   \<Longrightarrow> searchNodes cnt < searchNodes cnt'"
proof (induction fuel arbitrary: b depth alpha beta player cnt result b' cnt')
  case 0
  then show ?case by simp
next
  case (Suc fuel)
  from Suc.prems show ?case
    unfolding alphaBetaSearch_Suc
    by (auto split: if_splits dest: searchLoop_nodes [OF Suc.IH, rotated])
qed

lemma alphaBetaSearch_leaf:
  "alphaBetaSearch (Suc fuel) st b 0 alpha beta player cnt =
     Some (Num (evaluateBoard st b player), b, cnt\<lparr>searchNodes := searchNodes cnt + 1\<rparr>)"
  by (simp add: alphaBetaSearch_Suc)

lemma rootLoop_Cons:
  "rootLoop fuel st ((row, col) # moves) b player bestMove bestScore alpha cnt =
     (case alphaBetaSearch fuel st (setCell b row col player) (searchDepth st - 1) NegInf
             (- alpha) (3 - player) cnt of
        None \<Rightarrow> None
      | Some (result, b', cnt') \<Rightarrow>
          if - result > bestScore
          then rootLoop fuel st moves (setCell b' row col 0) player (Some (row, col))
                 (- result) (- result) cnt'
          else rootLoop fuel st moves (setCell b' row col 0) player bestMove bestScore alpha cnt')"
  by (simp add: Let_def split: option.splits)

lemma findBestMove_eq:
  "findBestMove fuel st b player cnt0 =
     (if candidates st b player = [] then Some (None, b, \<lparr>searchNodes = 0, pruningCount = 0\<rparr>)
      else (case rootLoop fuel st (candidates st b player) b player None NegInf NegInf
                   \<lparr>searchNodes = 0, pruningCount = 0\<rparr> of
              None \<Rightarrow> None
            | Some (bestMove, bestScore, b', cnt) \<Rightarrow>
                Some (Some \<lparr>move = bestMove, score = bestScore,
                            resultSearchNodes = searchNodes cnt,
                            resultPruningCount = pruningCount cnt\<rparr>, b', cnt)))"
  by (simp add: findBestMove_def Let_def generateCandidateMoves_eq)

lemma searchBound_fuelFor: "searchBound b (searchDepth st - 1) player < fuelFor st"
proof -
  have "emptyCells b \<le> length allCells" by (simp add: emptyCells_def)
  then show ?thesis by (auto simp: searchBound_def fuelFor_def)
qed

lemma rootLoop_run:
  assumes "fuelFor st \<le> fuel"
  shows "\<forall>(row, col)\<in>set moves. inBoard row col \<and> b row col = 0 \<Longrightarrow>
         \<exists>bestMove' bestScore' cnt'.
           rootLoop fuel st moves b player bestMove bestScore alpha cnt
             = Some (bestMove', bestScore', b, cnt')"
proof (induction moves arbitrary: bestMove bestScore alpha cnt)
  case Nil
  show ?case by simp
next
  case (Cons m moves)
  obtain row col where m: "m = (row, col)" by (cases m)
  from Cons.prems m have cell: "inBoard row col" "b row col = 0"
    and rest: "\<forall>(row, col)\<in>set moves. inBoard row col \<and> b row col = 0"
    by auto
  from searchBound_fuelFor [of "setCell b row col player" st "3 - player"] assms
  have "searchBound (setCell b row col player) (searchDepth st - 1) (3 - player) < fuel" by simp
  from alphaBetaSearch_total [OF this] obtain r1 b1 c1 where
    call: "alphaBetaSearch fuel st (setCell b row col player) (searchDepth st - 1) NegInf
             (- alpha) (3 - player) cnt = Some (r1, b1, c1)"
    by (metis not_None_eq prod_cases3)
  from alphaBetaSearch_restores [OF call] have restored: "setCell b1 row col 0 = b"
    by (simp add: setCell_restore cell)
  from Cons.IH [OF rest] call restored show ?case
    unfolding m rootLoop_Cons by simp
qed

lemma rootLoop_restores:
  "\<forall>(row, col)\<in>set moves. b row col = 0 \<Longrightarrow>
   rootLoop fuel st moves b player bestMove bestScore alpha cnt
     = Some (bestMove', bestScore', b', cnt')
   \<Longrightarrow> b' = b"
proof (induction moves arbitrary: bestMove bestScore alpha cnt)
  case Nil
  then show ?case by simp
next
  case (Cons m moves)
  obtain row col where m: "m = (row, col)" by (cases m)
  from Cons.prems(1) m have empty: "b row col = 0"
    and rest: "\<forall>(row, col)\<in>set moves. b row col = 0"
    by auto
  from Cons.prems(2) obtain r1 b1 c1 where
    call: "alphaBetaSearch fuel st (setCell b row col player) (searchDepth st - 1) NegInf
             (- alpha) (3 - player) cnt = Some (r1, b1, c1)"
    unfolding m rootLoop_Cons by (auto split: option.splits)
  from alphaBetaSearch_restores [OF call] have restored: "setCell b1 row col 0 = b"
    by (simp add: setCell_restore empty)
  show ?case
  proof (cases "- r1 > bestScore")
    case True
    with Cons.prems(2) call restored
    have "rootLoop fuel st moves b player (Some (row, col)) (- r1) (- r1) c1
            = Some (bestMove', bestScore', b', cnt')"
      unfolding m rootLoop_Cons by simp
    from Cons.IH [OF rest this] show ?thesis .
  next
    case False
    with Cons.prems(2) call restored
    have "rootLoop fuel st moves b player bestMove bestScore alpha c1
            = Some (bestMove', bestScore', b', cnt')"
      unfolding m rootLoop_Cons by simp
    from Cons.IH [OF rest this] show ?thesis .
  qed
qed

lemma rootLoop_nodes:
  "rootLoop fuel st moves b player bestMove bestScore alpha cnt
     = Some (bestMove', bestScore', b', cnt')
   \<Longrightarrow> searchNodes cnt + length moves \<le> searchNodes cnt'"
proof (induction moves arbitrary: b bestMove bestScore alpha cnt)
  case Nil
  then show ?case by simp
next
  case (Cons m moves)
  obtain row col where m: "m = (row, col)" by (cases m)
  from Cons.prems obtain r1 b1 c1 where
    call: "alphaBetaSearch fuel st (setCell b row col player) (searchDepth st - 1) NegInf
             (- alpha) (3 - player) cnt = Some (r1, b1, c1)"
    unfolding m rootLoop_Cons by (auto split: option.splits)
  from alphaBetaSearch_nodes [OF call] have "searchNodes cnt < searchNodes c1" .
  with Cons.prems call show ?case
    unfolding m rootLoop_Cons
    by (auto split: if_splits dest!: Cons.IH)
qed

lemma rootLoop_nodes_depth1:
  assumes "searchDepth st = 1"
  shows "rootLoop (Suc fuel) st moves b player bestMove bestScore alpha cnt
           = Some (bestMove', bestScore', b', cnt')
         \<Longrightarrow> searchNodes cnt' = searchNodes cnt + length moves"
proof (induction moves arbitrary: b bestMove bestScore alpha cnt)
  case Nil
  then show ?case by simp
next
  case (Cons m moves)
  obtain row col where m: "m = (row, col)" by (cases m)
  from Cons.prems show ?case
    unfolding m rootLoop_Cons assms
    by (auto simp: alphaBetaSearch_leaf split: if_splits dest!: Cons.IH)
qed

lemma rootLoop_mono:
  assumes "fuel \<le> fuel'"
  shows "rootLoop fuel st moves b player bestMove bestScore alpha cnt = Some x
         \<Longrightarrow> rootLoop fuel' st moves b player bestMove bestScore alpha cnt = Some x"
proof (induction moves arbitrary: b bestMove bestScore alpha cnt)
  case Nil
  then show ?case by simp
next
  case (Cons m moves)
  obtain row col where m: "m = (row, col)" by (cases m)
  from Cons.prems obtain r1 b1 c1 where
    call: "alphaBetaSearch fuel st (setCell b row col player) (searchDepth st - 1) NegInf
             (- alpha) (3 - player) cnt = Some (r1, b1, c1)"
    unfolding m rootLoop_Cons by (auto split: option.splits)
  note call' = alphaBetaSearch_mono [OF call assms]
  from Cons.prems call call' show ?case
    unfolding m rootLoop_Cons
    by (auto split: if_splits intro: Cons.IH)
qed

lemma findBestMove_mono:
  "findBestMove fuel st b player cnt0 = Some x \<Longrightarrow> fuel \<le> fuel'
   \<Longrightarrow> findBestMove fuel' st b player cnt0 = Some x"
  unfolding findBestMove_eq
  by (auto split: if_splits option.splits dest: rootLoop_mono [rotated])

lemma hasNearbyPieces_emptyBoard: "\<not> hasNearbyPieces emptyBoard row col rng"
  by (simp add: hasNearbyPieces_def emptyBoard_def list_ex_iff Let_def)

lemma candidates_emptyBoard: "candidates st emptyBoard player = []"
  by (simp add: candidates_def nearbyEmptyCells_def hasNearbyPieces_emptyBoard slice0_def)

lemma candidates_cells: "\<forall>(row, col)\<in>set (candidates st b player). inBoard row col \<and> b row col = 0"
  using candidates_empty_cell by blast

lemma findBestMove_run:
  assumes "fuelFor st \<le> fuel"
  shows "\<exists>res cnt'. findBestMove fuel st b player cnt = Some (res, b, cnt')
           \<and> (res = None \<longleftrightarrow> candidates st b player = [])"
proof (cases "candidates st b player = []")
  case True
  then show ?thesis by (simp add: findBestMove_eq)
next
  case False
  from rootLoop_run [OF assms candidates_cells]
  obtain bm bs c' where
    "rootLoop fuel st (candidates st b player) b player None NegInf NegInf
       \<lparr>searchNodes = 0, pruningCount = 0\<rparr> = Some (bm, bs, b, c')"
    by blast
  with False show ?thesis by (simp add: findBestMove_eq)
qed

lemma findBestMove_restores:
  assumes "findBestMove fuel st b player cnt = Some (res, b', cnt')"
  shows "b' = b"
proof (cases "candidates st b player = []")
  case True
  with assms show ?thesis by (simp add: findBestMove_eq)
next
  case False
  with assms obtain bm bs where
    "rootLoop fuel st (candidates st b player) b player None NegInf NegInf
       \<lparr>searchNodes = 0, pruningCount = 0\<rparr> = Some (bm, bs, b', cnt')"
    by (auto simp: findBestMove_eq split: option.splits)
  from rootLoop_restores [OF candidates_all_empty this] show ?thesis .
qed

lemma length_allCells: "length allCells = 225"
  by code_simp

lemma fuelFor_defaultEngine: "fuelFor defaultEngine = 458"
  by (simp add: fuelFor_def defaultEngine_def length_allCells)

lemma length_candidates:
  "length (candidates st b player) =
     (if candidateCount st < 0 then nat (int (length (nearbyEmptyCells st b)) + candidateCount st)
      else min (nat (candidateCount st)) (length (nearbyEmptyCells st b)))"
  by (simp add: candidates_def slice0_def min.commute)

lemma nearbyEmptyCells_range:
  "searchRange st = searchRange st' \<Longrightarrow> nearbyEmptyCells st b = nearbyEmptyCells st' b"
  by (simp add: nearbyEmptyCells_def)

lemma nearby_stoneBoard:
  "nearbyEmptyCells defaultEngine stoneBoard =
     [(5, 5), (5, 6), (5, 7), (5, 8), (5, 9), (6, 5), (6, 6), (6, 7), (6, 8), (6, 9),
      (7, 5), (7, 6), (7, 8), (7, 9), (8, 5), (8, 6), (8, 7), (8, 8), (8, 9),
      (9, 5), (9, 6), (9, 7), (9, 8), (9, 9)]"
  by code_simp

lemma length_candidates_default: "length (candidates defaultEngine stoneBoard player) = 10"
  by (simp add: length_candidates nearby_stoneBoard) (simp add: defaultEngine_def)

lemma length_candidates_shallow: "length (candidates shallowEngine stoneBoard player) = 1"
proof -
  have "nearbyEmptyCells shallowEngine stoneBoard = nearbyEmptyCells defaultEngine stoneBoard"
    by (rule nearbyEmptyCells_range) (simp add: shallowEngine_def)
  then show ?thesis
    by (simp add: length_candidates nearby_stoneBoard) (simp add: shallowEngine_def)
qed

lemma fuelFor_shallowEngine: "fuelFor shallowEngine = 453"
  by (simp add: fuelFor_def shallowEngine_def length_allCells)

section \<open>Facts about numbers and the exhaustive search\<close>

lemma number_neg_neg [simp]: "- (- x) = (x :: number)"
  by (cases x) auto

lemma number_neg_le [simp]: "- x \<le> - y \<longleftrightarrow> y \<le> (x :: number)"
  by (cases x; cases y) auto

lemma number_neg_less [simp]: "- x < - y \<longleftrightarrow> y < (x :: number)"
  by (simp add: less_number_def)

lemma number_le_neg: "x \<le> - y \<longleftrightarrow> y \<le> - (x :: number)"
  by (cases x; cases y) auto

lemma number_neg_le': "- x \<le> y \<longleftrightarrow> - y \<le> (x :: number)"
  by (cases x; cases y) auto

lemma number_less_neg: "x < - y \<longleftrightarrow> y < - (x :: number)"
  by (simp add: less_number_def number_le_neg number_neg_le')

lemma number_neg_less': "- x < y \<longleftrightarrow> - y < (x :: number)"
  by (simp add: less_number_def number_le_neg number_neg_le')

lemma NegInf_least [simp]: "NegInf \<le> x"
  by simp

lemma NegInf_less_Num [simp]: "NegInf < Num x" "Num x < PosInf" "NegInf < PosInf"
  by (simp_all add: less_number_def)

lemma max_NegInf [simp]: "max NegInf x = x" "max x NegInf = x"
  by (simp_all add: max_def) (cases x, auto)


lemma finite_number_simps [simp]:
  "finite_number (Num q)" "\<not> finite_number NegInf" "\<not> finite_number PosInf"
  "finite_number (- x) = finite_number x"
  by (auto simp: finite_number_def) (cases x; simp)+

lemma finite_number_max: "finite_number x \<Longrightarrow> finite_number y \<Longrightarrow> finite_number (max x y)"
  by (simp add: max_def)

lemma finite_number_max_NegInf: "finite_number y \<Longrightarrow> x = NegInf \<or> finite_number x \<Longrightarrow> finite_number (max x y)"
  by (auto simp: finite_number_max)

lemma searchLoop_finite:
  assumes ab: "\<And>b depth alpha beta player cnt result b' cnt'.
     alphaBetaSearch fuel st b depth alpha beta player cnt = Some (result, b', cnt')
     \<Longrightarrow> finite_number result"
  shows "searchLoop fuel st moves b depth alpha beta player maxScore cnt = Some (result, b', cnt')
         \<Longrightarrow> (moves = [] \<longrightarrow> finite_number maxScore)
         \<Longrightarrow> maxScore = NegInf \<or> finite_number maxScore
         \<Longrightarrow> finite_number result"
proof (induction moves arbitrary: b alpha maxScore cnt)
  case Nil
  then show ?case by simp
next
  case (Cons m moves)
  obtain row col where m: "m = (row, col)" by (cases m)
  from Cons.prems(1) obtain r1 b1 c1 where
    call: "alphaBetaSearch fuel st (setCell b row col player) (depth - 1) (- beta) (- alpha)
             (3 - player) cnt = Some (r1, b1, c1)"
    unfolding m searchLoop_Cons by (auto split: option.splits)
  from ab [OF call] have "finite_number (- r1)" by simp
  with Cons.prems(3) have fin: "finite_number (max maxScore (- r1))"
    using finite_number_max_NegInf by blast
  show ?case
  proof (cases "max alpha (- r1) \<ge> beta")
    case True
    with Cons.prems(1) call fin show ?thesis
      unfolding m searchLoop_Cons by simp
  next
    case False
    with Cons.prems(1) call
    have "searchLoop fuel st moves (setCell b1 row col 0) depth (max alpha (- r1)) beta player
            (max maxScore (- r1)) c1 = Some (result, b', cnt')"
      unfolding m searchLoop_Cons by simp
    from Cons.IH [OF this] fin show ?thesis by simp
  qed
qed

lemma alphaBetaSearch_finite:
  "alphaBetaSearch fuel st b depth alpha beta player cnt = Some (result, b', cnt')
   \<Longrightarrow> finite_number result"
proof (induction fuel arbitrary: b depth alpha beta player cnt result b' cnt')
  case 0
  then show ?case by simp
next
  case (Suc fuel)
  from Suc.prems show ?case
    unfolding alphaBetaSearch_Suc
    by (auto split: if_splits dest: searchLoop_finite [OF Suc.IH, rotated])
qed

lemma searchLoop_ge:
  "searchLoop fuel st moves b depth alpha beta player maxScore cnt = Some (result, b', cnt')
   \<Longrightarrow> maxScore \<le> result"
proof (induction moves arbitrary: b alpha maxScore cnt)
  case Nil
  then show ?case by simp
next
  case (Cons m moves)
  obtain row col where m: "m = (row, col)" by (cases m)
  from Cons.prems obtain r1 b1 c1 where
    call: "alphaBetaSearch fuel st (setCell b row col player) (depth - 1) (- beta) (- alpha)
             (3 - player) cnt = Some (r1, b1, c1)"
    unfolding m searchLoop_Cons by (auto split: option.splits)
  show ?case
  proof (cases "max alpha (- r1) \<ge> beta")
    case True
    with Cons.prems call show ?thesis
      unfolding m searchLoop_Cons by auto
  next
    case False
    with Cons.prems call
    have "searchLoop fuel st moves (setCell b1 row col 0) depth (max alpha (- r1)) beta player
            (max maxScore (- r1)) c1 = Some (result, b', cnt')"
      unfolding m searchLoop_Cons by simp
    from Cons.IH [OF this] show ?thesis by simp
  qed
qed

lemma negamax_Suc:
  "negamax (Suc fuel) st b depth player =
     (if depth = 0 then Some (Num (evaluateBoard st b player), 1)
      else if checkWinner b = player then Some (Num (10000 + of_int depth), 1)
      else if checkWinner b = 3 - player then Some (Num (- 10000 - of_int depth), 1)
      else if candidates st b player = [] then Some (Num 0, 1)
      else (case negamaxList fuel st (candidates st b player) b depth player of
              None \<Rightarrow> None
            | Some (v, n) \<Rightarrow> Some (v, n + 1)))"
  by (simp add: generateCandidateMoves_eq)

lemma negamaxList_total:
  assumes nm: "\<And>b depth player.
     searchBound b depth player < fuel \<Longrightarrow> negamax fuel st b depth player \<noteq> None"
    and "depth \<noteq> 0" and "searchBound b depth player \<le> fuel"
  shows "\<forall>(row, col)\<in>set moves. inBoard row col \<and> b row col = 0
         \<Longrightarrow> negamaxList fuel st moves b depth player \<noteq> None"
proof (induction moves)
  case Nil
  show ?case by simp
next
  case (Cons m moves)
  obtain row col where m: "m = (row, col)" by (cases m)
  from Cons.prems m have cell: "inBoard row col" "b row col = 0"
    and rest: "\<forall>(row, col)\<in>set moves. inBoard row col \<and> b row col = 0"
    by auto
  from searchBound_child [of depth row col b player] assms(2,3) cell
  have "searchBound (setCell b row col player) (depth - 1) (3 - player) < fuel" by simp
  from nm [OF this] Cons.IH [OF rest] show ?case
    unfolding m by (auto split: option.splits)
qed

lemma negamax_total:
  "searchBound b depth player < fuel \<Longrightarrow> negamax fuel st b depth player \<noteq> None"
proof (induction fuel arbitrary: b depth player)
  case 0
  then show ?case by simp
next
  case (Suc fuel)
  from Suc.prems have le: "searchBound b depth player \<le> fuel" by simp
  have cands: "\<forall>(row, col)\<in>set (candidates st b player). inBoard row col \<and> b row col = 0"
    using candidates_empty_cell by blast
  show ?case
  proof (cases "depth = 0")
    case True
    then show ?thesis by (simp add: negamax_Suc)
  next
    case False
    from negamaxList_total [OF Suc.IH False le cands] show ?thesis
      unfolding negamax_Suc by (auto split: option.splits)
  qed
qed

section \<open>The counter and the log of invocations\<close>

lemma searchCalls_Suc:
  "searchCalls (Suc fuel) st b depth alpha beta player =
     (if depth = 0 then Some (Num (evaluateBoard st b player), [(b, depth, player)])
      else if checkWinner b = player then Some (Num (10000 + of_int depth), [(b, depth, player)])
      else if checkWinner b = 3 - player
      then Some (Num (- 10000 - of_int depth), [(b, depth, player)])
      else if candidates st b player = [] then Some (Num 0, [(b, depth, player)])
      else (case loopCalls fuel st (candidates st b player) b depth alpha beta player NegInf of
              None \<Rightarrow> None
            | Some (v, calls) \<Rightarrow> Some (v, (b, depth, player) # calls)))"
  by (simp add: generateCandidateMoves_eq)

lemma searchLoop_calls:
  assumes ab: "\<And>b depth alpha beta player cnt r b' cnt'.
     alphaBetaSearch fuel st b depth alpha beta player cnt = Some (r, b', cnt')
     \<Longrightarrow> \<exists>calls. searchCalls fuel st b depth alpha beta player = Some (r, calls) \<and>
                 searchNodes cnt' = searchNodes cnt + length calls"
  shows "\<forall>(row, col)\<in>set moves. b row col = 0
     \<Longrightarrow> searchLoop fuel st moves b depth alpha beta player maxScore cnt = Some (r, b', cnt')
     \<Longrightarrow> \<exists>calls. loopCalls fuel st moves b depth alpha beta player maxScore = Some (r, calls) \<and>
                 searchNodes cnt' = searchNodes cnt + length calls"
proof (induction moves arbitrary: alpha maxScore cnt)
  case Nil
  then show ?case by simp
next
  case (Cons m moves)
  obtain row col where m: "m = (row, col)" by (cases m)
  from Cons.prems(1) m have empty: "b row col = 0"
    and rest: "\<forall>(row, col)\<in>set moves. b row col = 0"
    by auto
  from Cons.prems(2) obtain r1 b1 c1 where
    call: "alphaBetaSearch fuel st (setCell b row col player) (depth - 1) (- beta) (- alpha)
             (3 - player) cnt = Some (r1, b1, c1)"
    unfolding m searchLoop_Cons by (auto split: option.splits)
  from ab [OF call] obtain calls1 where
    log1: "searchCalls fuel st (setCell b row col player) (depth - 1) (- beta) (- alpha)
             (3 - player) = Some (r1, calls1)"
    and n1: "searchNodes c1 = searchNodes cnt + length calls1"
    by blast
  from alphaBetaSearch_restores [OF call] have restored: "setCell b1 row col 0 = b"
    by (simp add: setCell_restore empty)
  show ?case
  proof (cases "max alpha (- r1) \<ge> beta")
    case True
    with Cons.prems(2) call have "r = max maxScore (- r1)" "searchNodes cnt' = searchNodes c1"
      unfolding m searchLoop_Cons by auto
    with True log1 n1 show ?thesis unfolding m by simp
  next
    case False
    with Cons.prems(2) call restored
    have loop: "searchLoop fuel st moves b depth (max alpha (- r1)) beta player
                  (max maxScore (- r1)) c1 = Some (r, b', cnt')"
      unfolding m searchLoop_Cons by simp
    from Cons.IH [OF rest loop] obtain calls2 where
      "loopCalls fuel st moves b depth (max alpha (- r1)) beta player (max maxScore (- r1))
         = Some (r, calls2)"
      and "searchNodes cnt' = searchNodes c1 + length calls2"
      by blast
    with False log1 n1 show ?thesis unfolding m by simp
  qed
qed

lemma alphaBetaSearch_calls:
  "alphaBetaSearch fuel st b depth alpha beta player cnt = Some (r, b', cnt')
   \<Longrightarrow> \<exists>calls. searchCalls fuel st b depth alpha beta player = Some (r, (b, depth, player) # calls) \<and>
               searchNodes cnt' = searchNodes cnt + 1 + length calls"
proof (induction fuel arbitrary: b depth alpha beta player cnt r b' cnt')
  case 0
  then show ?case by simp
next
  case (Suc fuel)
  have ih: "\<exists>calls. searchCalls fuel st b depth alpha beta player = Some (r, calls) \<and>
                 searchNodes cnt' = searchNodes cnt + length calls"
    if "alphaBetaSearch fuel st b depth alpha beta player cnt = Some (r, b', cnt')"
    for b depth alpha beta player cnt r b' cnt'
    using Suc.IH [OF that] by auto
  show ?case
  proof (cases "depth = 0 \<or> checkWinner b = player \<or> checkWinner b = 3 - player
                \<or> candidates st b player = []")
    case True
    with Suc.prems show ?thesis
      unfolding alphaBetaSearch_Suc searchCalls_Suc by (auto split: if_splits)
  next
    case False
    with Suc.prems
    have loop: "searchLoop fuel st (candidates st b player) b depth alpha beta player NegInf
                  (cnt\<lparr>searchNodes := searchNodes cnt + 1\<rparr>) = Some (r, b', cnt')"
      unfolding alphaBetaSearch_Suc by simp
    have "\<exists>calls. loopCalls fuel st (candidates st b player) b depth alpha beta player NegInf
                   = Some (r, calls) \<and>
                 searchNodes cnt' = searchNodes (cnt\<lparr>searchNodes := searchNodes cnt + 1\<rparr>)
                                      + length calls"
    proof (rule searchLoop_calls [OF _ candidates_all_empty loop])
      fix b depth alpha beta player cnt r b' cnt'
      assume "alphaBetaSearch fuel st b depth alpha beta player cnt = Some (r, b', cnt')"
      then show "\<exists>calls. searchCalls fuel st b depth alpha beta player = Some (r, calls) \<and>
                        searchNodes cnt' = searchNodes cnt + length calls"
        by (rule ih)
    qed
    with False show ?thesis unfolding searchCalls_Suc by auto
  qed
qed

lemma rootLoop_calls:
  "\<forall>(row, col)\<in>set moves. b row col = 0
   \<Longrightarrow> rootLoop fuel st moves b player bestMove bestScore alpha cnt = Some (bm, bs, b', cnt')
   \<Longrightarrow> \<exists>calls. rootCalls fuel st moves b player bestScore alpha = Some calls \<and>
               searchNodes cnt' = searchNodes cnt + length calls"
proof (induction moves arbitrary: bestMove bestScore alpha cnt)
  case Nil
  then show ?case by simp
next
  case (Cons m moves)
  obtain row col where m: "m = (row, col)" by (cases m)
  from Cons.prems(1) m have empty: "b row col = 0"
    and rest: "\<forall>(row, col)\<in>set moves. b row col = 0"
    by auto
  from Cons.prems(2) obtain r1 b1 c1 where
    call: "alphaBetaSearch fuel st (setCell b row col player) (searchDepth st - 1) NegInf
             (- alpha) (3 - player) cnt = Some (r1, b1, c1)"
    unfolding m rootLoop_Cons by (auto split: option.splits)
  from alphaBetaSearch_calls [OF call] obtain calls1 where
    log1: "searchCalls fuel st (setCell b row col player) (searchDepth st - 1) NegInf (- alpha)
             (3 - player) = Some (r1, calls1)"
    and n1: "searchNodes c1 = searchNodes cnt + length calls1"
    by auto
  from alphaBetaSearch_restores [OF call] have restored: "setCell b1 row col 0 = b"
    by (simp add: setCell_restore empty)
  show ?case
  proof (cases "- r1 > bestScore")
    case True
    with Cons.prems(2) call restored
    have "rootLoop fuel st moves b player (Some (row, col)) (- r1) (- r1) c1
            = Some (bm, bs, b', cnt')"
      unfolding m rootLoop_Cons by simp
    from Cons.IH [OF rest this] obtain calls2 where
      "rootCalls fuel st moves b player (- r1) (- r1) = Some calls2"
      and "searchNodes cnt' = searchNodes c1 + length calls2"
      by blast
    with True log1 n1 show ?thesis unfolding m by simp
  next
    case False
    with Cons.prems(2) call restored
    have "rootLoop fuel st moves b player bestMove bestScore alpha c1 = Some (bm, bs, b', cnt')"
      unfolding m rootLoop_Cons by simp
    from Cons.IH [OF rest this] obtain calls2 where
      "rootCalls fuel st moves b player bestScore alpha = Some calls2"
      and "searchNodes cnt' = searchNodes c1 + length calls2"
      by blast
    with False log1 n1 show ?thesis unfolding m by simp
  qed
qed

lemma findBestMove_calls:
  assumes "findBestMove fuel st b player cnt = Some (Some res, b', cnt')"
  shows "\<exists>calls. findBestMoveCalls fuel st b player = Some calls \<and>
                 resultSearchNodes res = length calls"
proof -
  from assms obtain bm bs where
    root: "rootLoop fuel st (candidates st b player) b player None NegInf NegInf
             \<lparr>searchNodes = 0, pruningCount = 0\<rparr> = Some (bm, bs, b', cnt')"
    and res: "resultSearchNodes res = searchNodes cnt'"
    by (auto simp: findBestMove_eq split: if_splits option.splits)
  from rootLoop_calls [OF candidates_all_empty root] res show ?thesis
    by (simp add: findBestMoveCalls_def generateCandidateMoves_eq)
qed

section \<open>Pruning against exhaustive search\<close>

lemma failSoft_refl: "failSoft a b v v"
  by (simp add: failSoft_def)

lemma failSoft_neg: "failSoft (- b) (- a) v r \<Longrightarrow> failSoft a b (- v) (- r)"
  unfolding failSoft_def
  by (metis number_neg_le number_neg_less number_neg_neg)

lemma failSoft_cut:
  assumes "a < b" "m \<le> a" "failSoft a b t s" "b \<le> s"
  shows "failSoft a b (max t v2) (max m s)"
proof -
  from assms have "m \<le> s" by order
  then have ms: "max m s = s" by (simp add: max.absorb2)
  from assms have "s \<le> t" by (simp add: failSoft_def)
  then have "s \<le> max t v2" by (simp add: le_max_iff_disj)
  moreover from assms(1,4) have "a < s" by order
  ultimately show ?thesis unfolding ms failSoft_def using assms(4) by auto
qed

lemma failSoft_step:
  assumes "a < b" "m \<le> a" "failSoft a b t s" "s < b" "failSoft (max a s) b v2 r" "max m s \<le> r"
  shows "failSoft a b (max t v2) r"
proof (cases "s \<le> a")
  case True
  then have mx: "max a s = a" by (simp add: max.absorb1)
  from True assms(3) have ts: "t \<le> s" by (simp add: failSoft_def)
  from assms(6) have "s \<le> r" by simp
  with ts have tr: "t \<le> r" by order
  from assms(5) have ih: "failSoft a b v2 r" by (simp add: mx)
  show ?thesis
    unfolding failSoft_def
  proof (intro conjI impI)
    assume "r \<le> a"
    with ih have "v2 \<le> r" by (simp add: failSoft_def)
    with tr show "max t v2 \<le> r" by simp
  next
    assume h: "a < r \<and> r < b"
    with ih have "r = v2" by (simp add: failSoft_def)
    moreover note tr
    ultimately show "r = max t v2" by (simp add: max.absorb2)
  next
    assume "b \<le> r"
    with ih have "r \<le> v2" by (simp add: failSoft_def)
    then show "r \<le> max t v2" by (simp add: le_max_iff_disj)
  qed
next
  case False
  then have as: "a < s" by simp
  then have mx: "max a s = s" by (simp add: max.absorb2)
  from as assms(3,4) have st: "s = t" by (simp add: failSoft_def)
  from assms(6) have sr: "s \<le> r" by simp
  from assms(5) have ih: "failSoft s b v2 r" by (simp add: mx)
  show ?thesis
    unfolding failSoft_def
  proof (intro conjI impI)
    assume "r \<le> a"
    with as sr have False by order
    then show "max t v2 \<le> r" ..
  next
    assume h: "a < r \<and> r < b"
    show "r = max t v2"
    proof (cases "r \<le> s")
      case True
      with sr have rs: "r = s" by order
      from True ih have "v2 \<le> r" by (simp add: failSoft_def)
      with rs st show ?thesis by (simp add: max.absorb1)
    next
      case False
      with h ih have "r = v2" by (simp add: failSoft_def)
      moreover from False st have "t \<le> r" by simp
      ultimately show ?thesis by (simp add: max.absorb2)
    qed
  next
    assume "b \<le> r"
    with ih have "r \<le> v2" by (simp add: failSoft_def)
    then show "r \<le> max t v2" by (simp add: le_max_iff_disj)
  qed
qed

lemma negamaxList_Cons:
  "negamaxList fuel st ((row, col) # moves) b depth player = Some (v, n) \<longleftrightarrow>
     (\<exists>v1 n1 v2 n2.
        negamax fuel st (setCell b row col player) (depth - 1) (3 - player) = Some (v1, n1) \<and>
        negamaxList fuel st moves b depth player = Some (v2, n2) \<and>
        v = max (- v1) v2 \<and> n = n1 + n2)"
  by (auto split: option.splits)

lemma searchLoop_failSoft:
  assumes ab: "\<And>b depth alpha beta player cnt r b' cnt' v n.
     alpha < beta
     \<Longrightarrow> alphaBetaSearch fuel st b depth alpha beta player cnt = Some (r, b', cnt')
     \<Longrightarrow> negamax g st b depth player = Some (v, n)
     \<Longrightarrow> failSoft alpha beta v r \<and> searchNodes cnt' \<le> searchNodes cnt + n"
  shows "alpha < beta \<Longrightarrow> maxScore \<le> alpha
     \<Longrightarrow> \<forall>(row, col)\<in>set moves. b row col = 0
     \<Longrightarrow> searchLoop fuel st moves b depth alpha beta player maxScore cnt = Some (r, b', cnt')
     \<Longrightarrow> negamaxList g st moves b depth player = Some (v, n)
     \<Longrightarrow> failSoft alpha beta v r \<and> searchNodes cnt' \<le> searchNodes cnt + n"
proof (induction moves arbitrary: alpha maxScore cnt v n)
  case Nil
  then show ?case by (auto simp: failSoft_def)
next
  case (Cons m moves)
  obtain row col where m: "m = (row, col)" by (cases m)
  from Cons.prems(3) m have empty: "b row col = 0"
    and rest: "\<forall>(row, col)\<in>set moves. b row col = 0"
    by auto
  from Cons.prems(4) obtain r1 b1 c1 where
    call: "alphaBetaSearch fuel st (setCell b row col player) (depth - 1) (- beta) (- alpha)
             (3 - player) cnt = Some (r1, b1, c1)"
    unfolding m searchLoop_Cons by (auto split: option.splits)
  from Cons.prems(5) obtain v1 n1 v2 n2 where
    ex1: "negamax g st (setCell b row col player) (depth - 1) (3 - player) = Some (v1, n1)"
    and ex2: "negamaxList g st moves b depth player = Some (v2, n2)"
    and v: "v = max (- v1) v2" and n: "n = n1 + n2"
    unfolding m negamaxList_Cons by blast
  from Cons.prems(1) have "- beta < - alpha" by simp
  from ab [OF this call ex1]
  have fs1: "failSoft (- beta) (- alpha) v1 r1" and nodes1: "searchNodes c1 \<le> searchNodes cnt + n1"
    by simp_all
  from failSoft_neg [OF fs1] have fs: "failSoft alpha beta (- v1) (- r1)" .
  from alphaBetaSearch_restores [OF call] have restored: "setCell b1 row col 0 = b"
    by (simp add: setCell_restore empty)
  show ?case
  proof (cases "max alpha (- r1) \<ge> beta")
    case True
    with Cons.prems(4) call
    have r: "r = max maxScore (- r1)" and c: "searchNodes cnt' = searchNodes c1"
      unfolding m searchLoop_Cons by auto
    from True Cons.prems(1) have "beta \<le> - r1"
      by (metis le_max_iff_disj not_le)
    from failSoft_cut [OF Cons.prems(1,2) fs this] nodes1 show ?thesis
      by (simp add: r c v n)
  next
    case False
    with Cons.prems(4) call restored
    have loop: "searchLoop fuel st moves b depth (max alpha (- r1)) beta player
                  (max maxScore (- r1)) c1 = Some (r, b', cnt')"
      unfolding m searchLoop_Cons by simp
    from False have less: "max alpha (- r1) < beta" by (simp add: not_le)
    from Cons.prems(2) have le: "max maxScore (- r1) \<le> max alpha (- r1)"
      by (rule max.mono) simp
    from Cons.IH [OF less le rest loop ex2]
    have ih: "failSoft (max alpha (- r1)) beta v2 r" and nodes2: "searchNodes cnt' \<le> searchNodes c1 + n2"
      by simp_all
    from less have "- r1 < beta" by (simp add: max_less_iff_conj)
    from failSoft_step [OF Cons.prems(1,2) fs this ih searchLoop_ge [OF loop]] nodes1 nodes2
    show ?thesis by (simp add: v n)
  qed
qed

lemma alphaBetaSearch_failSoft:
  "alpha < beta
   \<Longrightarrow> alphaBetaSearch fuel st b depth alpha beta player cnt = Some (r, b', cnt')
   \<Longrightarrow> negamax g st b depth player = Some (v, n)
   \<Longrightarrow> failSoft alpha beta v r \<and> searchNodes cnt' \<le> searchNodes cnt + n"
proof (induction fuel arbitrary: g b depth alpha beta player cnt r b' cnt' v n)
  case 0
  then show ?case by simp
next
  case (Suc fuel)
  from Suc.prems(3) obtain g' where g: "g = Suc g'" by (cases g) auto
  let ?c = "cnt\<lparr>searchNodes := searchNodes cnt + 1\<rparr>"
  show ?case
  proof (cases "depth = 0 \<or> checkWinner b = player \<or> checkWinner b = 3 - player
                \<or> candidates st b player = []")
    case True
    with Suc.prems(2,3) have "r = v" "cnt' = ?c" "n = 1"
      unfolding g alphaBetaSearch_Suc negamax_Suc by (auto split: if_splits)
    then show ?thesis by (simp add: failSoft_refl)
  next
    case False
    with Suc.prems(2)
    have loop: "searchLoop fuel st (candidates st b player) b depth alpha beta player NegInf ?c
                  = Some (r, b', cnt')"
      unfolding alphaBetaSearch_Suc by simp
    from False Suc.prems(3) obtain n' where
      ex: "negamaxList g' st (candidates st b player) b depth player = Some (v, n')"
      and n: "n = n' + 1"
      unfolding g negamax_Suc by (auto split: option.splits)
    have "NegInf \<le> alpha" by simp
    from searchLoop_failSoft [of fuel st g', OF Suc.IH Suc.prems(1) this candidates_all_empty loop ex]
    show ?thesis by (simp add: n)
  qed
qed

lemma exhaustiveRoot_Cons:
  "exhaustiveRoot fuel st ((row, col) # moves) b player bestMove bestScore nodes = Some x \<longleftrightarrow>
     (\<exists>v n. negamax fuel st (setCell b row col player) (searchDepth st - 1) (3 - player)
               = Some (v, n) \<and>
            (if - v > bestScore
             then exhaustiveRoot fuel st moves b player (Some (row, col)) (- v) (nodes + n)
             else exhaustiveRoot fuel st moves b player bestMove bestScore (nodes + n)) = Some x)"
  by (auto split: option.splits)

lemma NegInf_less_neg: "x = NegInf \<or> finite_number x \<Longrightarrow> NegInf < - x"
  by (cases x) auto

lemma finite_NegInf_less: "finite_number x \<Longrightarrow> NegInf < x"
  by (cases x) auto

lemma rootLoop_exhaustive:
  "\<forall>(row, col)\<in>set moves. b row col = 0
   \<Longrightarrow> bestScore = NegInf \<or> finite_number bestScore
   \<Longrightarrow> rootLoop fuel st moves b player bestMove bestScore bestScore cnt = Some (bm, bs, b', cnt')
   \<Longrightarrow> exhaustiveRoot g st moves b player bestMove bestScore nodes = Some (bm2, bs2, n2)
   \<Longrightarrow> bm = bm2 \<and> bs = bs2 \<and> searchNodes cnt' + nodes \<le> searchNodes cnt + n2"
proof (induction moves arbitrary: bestMove bestScore cnt nodes)
  case Nil
  then show ?case by simp
next
  case (Cons m moves)
  obtain row col where m: "m = (row, col)" by (cases m)
  from Cons.prems(1) m have empty: "b row col = 0"
    and rest: "\<forall>(row, col)\<in>set moves. b row col = 0"
    by auto
  from Cons.prems(3) obtain r1 b1 c1 where
    call: "alphaBetaSearch fuel st (setCell b row col player) (searchDepth st - 1) NegInf
             (- bestScore) (3 - player) cnt = Some (r1, b1, c1)"
    unfolding m rootLoop_Cons by (auto split: option.splits)
  from Cons.prems(4) obtain v1 n1 where
    ex1: "negamax g st (setCell b row col player) (searchDepth st - 1) (3 - player) = Some (v1, n1)"
    and ex2: "(if - v1 > bestScore
               then exhaustiveRoot g st moves b player (Some (row, col)) (- v1) (nodes + n1)
               else exhaustiveRoot g st moves b player bestMove bestScore (nodes + n1))
              = Some (bm2, bs2, n2)"
    unfolding m exhaustiveRoot_Cons by blast
  from alphaBetaSearch_failSoft [OF NegInf_less_neg [OF Cons.prems(2)] call ex1]
  have fs: "failSoft NegInf (- bestScore) v1 r1" and nodes1: "searchNodes c1 \<le> searchNodes cnt + n1"
    by simp_all
  from alphaBetaSearch_finite [OF call] have fin: "finite_number r1" .
  from alphaBetaSearch_restores [OF call] have restored: "setCell b1 row col 0 = b"
    by (simp add: setCell_restore empty)
  show ?case
  proof (cases "- r1 > bestScore")
    case True
    then have "r1 < - bestScore" by (simp add: number_less_neg)
    with fs finite_NegInf_less [OF fin] have eq: "r1 = v1" by (simp add: failSoft_def)
    from True Cons.prems(3) call restored
    have loop: "rootLoop fuel st moves b player (Some (row, col)) (- r1) (- r1) c1
                  = Some (bm, bs, b', cnt')"
      unfolding m rootLoop_Cons by simp
    from True ex2 eq
    have ex: "exhaustiveRoot g st moves b player (Some (row, col)) (- r1) (nodes + n1)
                = Some (bm2, bs2, n2)"
      by simp
    from fin have "- r1 = NegInf \<or> finite_number (- r1)" by simp
    from Cons.IH [OF rest this loop ex] nodes1 show ?thesis by simp
  next
    case False
    then have "- r1 \<le> bestScore" by simp
    then have "- bestScore \<le> r1" by (simp add: number_neg_le')
    with fs have "r1 \<le> v1" by (simp add: failSoft_def)
    then have "- v1 \<le> - r1" by simp
    with \<open>- r1 \<le> bestScore\<close> have "- v1 \<le> bestScore" by order
    then have nb: "\<not> - v1 > bestScore" by simp
    from False Cons.prems(3) call restored
    have loop: "rootLoop fuel st moves b player bestMove bestScore bestScore c1
                  = Some (bm, bs, b', cnt')"
      unfolding m rootLoop_Cons by simp
    from nb ex2
    have ex: "exhaustiveRoot g st moves b player bestMove bestScore (nodes + n1)
                = Some (bm2, bs2, n2)"
      by simp
    from Cons.IH [OF rest Cons.prems(2) loop ex] nodes1 show ?thesis by simp
  qed
qed

lemma exhaustiveRoot_run:
  assumes "fuelFor st \<le> fuel"
  shows "exhaustiveRoot fuel st moves b player bestMove bestScore nodes \<noteq> None"
proof (induction moves arbitrary: bestMove bestScore nodes)
  case Nil
  show ?case by simp
next
  case (Cons m moves)
  obtain row col where m: "m = (row, col)" by (cases m)
  from searchBound_fuelFor [of "setCell b row col player" st "3 - player"] assms
  have "searchBound (setCell b row col player) (searchDepth st - 1) (3 - player) < fuel" by simp
  from negamax_total [OF this] Cons.IH show ?case
    unfolding m by (auto split: option.splits)
qed

lemma exhaustiveBestMove_eq:
  "exhaustiveBestMove fuel st b player =
     (if candidates st b player = [] then Some None
      else (case exhaustiveRoot fuel st (candidates st b player) b player None NegInf 0 of
              None \<Rightarrow> None
            | Some r \<Rightarrow> Some (Some r)))"
  by (simp add: exhaustiveBestMove_def generateCandidateMoves_eq)

section \<open>Facts about the cells near a single stone\<close>

lemma nearbyEmptyCells_cong:
  assumes "\<And>r c. (b r c = 0) = (b' r c = 0)" and "searchRange st = searchRange st'"
  shows "nearbyEmptyCells st b = nearbyEmptyCells st' b'"
  by (simp add: nearbyEmptyCells_def hasNearbyPieces_def assms)

lemma single_stone_zero:
  "v \<noteq> 0 \<Longrightarrow> (setCell emptyBoard 7 7 v r c = 0) = (stoneBoard r c = 0)"
  by (simp add: stoneBoard_def setCell_def emptyBoard_def)

lemma near_cells_set:
  "set [(5, 5), (5, 6), (5, 7), (5, 8), (5, 9), (6, 5), (6, 6), (6, 7), (6, 8), (6, 9),
        (7, 5), (7, 6), (7, 8), (7, 9), (8, 5), (8, 6), (8, 7), (8, 8), (8, 9),
        (9, 5), (9, 6), (9, 7), (9, 8), (9, 9)]
   = {m :: int \<times> int. m \<noteq> (7, 7) \<and> chebyshev m (7, 7) \<le> 2}"
proof -
  let ?cells = "[(5, 5), (5, 6), (5, 7), (5, 8), (5, 9), (6, 5), (6, 6), (6, 7), (6, 8), (6, 9),
        (7, 5), (7, 6), (7, 8), (7, 9), (8, 5), (8, 6), (8, 7), (8, 8), (8, 9),
        (9, 5), (9, 6), (9, 7), (9, 8), (9, 9)] :: (int \<times> int) list"
  have "?cells = filter (\<lambda>m. m \<noteq> (7, 7)) (List.product [5..9] [5..9])"
    by code_simp
  then have "set ?cells = {m \<in> {5..9} \<times> {5..9}. m \<noteq> (7, 7)}"
    by (simp only: set_filter set_product set_upto)
  also have "\<dots> = {m. m \<noteq> (7, 7) \<and> chebyshev m (7, 7) \<le> 2}"
    by (auto simp: chebyshev_def)
  finally show ?thesis .
qed

lemma sorted_by_score:
  "sorted_wrt (\<lambda>m m'. f m' \<le> f m)
     (map fst (sort_key (\<lambda>(move, score). - score) (map (\<lambda>m. (m, f m)) xs)))"
  for f :: "'a \<Rightarrow> rat"
proof -
  let ?ys = "sort_key (\<lambda>(move, score). - score) (map (\<lambda>m. (m, f m)) xs)"
  have "\<forall>p\<in>set ?ys. snd p = f (fst p)" by auto
  then have eq: "map (\<lambda>(move, score). - score) ?ys = map (\<lambda>m. - f m) (map fst ?ys)"
    by (auto simp: case_prod_beta)
  have "sorted (map (\<lambda>(move, score). - score) ?ys)" by (rule sorted_sort_key)
  then have "sorted (map (\<lambda>m. - f m) (map fst ?ys))" by (simp only: eq)
  then show ?thesis by (simp add: sorted_map sorted_wrt_map del: map_map)
qed

section \<open>Construction\<close>

text \<open>
  C3, as the specification states it, fails: a negative search depth is kept as the caller gave
  it, and a weight table without some key is taken as it is, with no default for the key.
\<close>

theorem constructor_keeps_malformed:
  "searchDepth (constructor \<lparr> argSearchDepth = Some (- 1), argCandidateCount = None,
       argSearchRange = None, argPatternWeights = Some [LiveFive \<mapsto> 1] \<rparr>) = - 1 \<and>
   patternWeights (constructor \<lparr> argSearchDepth = Some (- 1), argCandidateCount = None,
       argSearchRange = None, argPatternWeights = Some [LiveFive \<mapsto> 1] \<rparr>) OpponentThreat = None"
  by (simp add: constructor_def spread_def)

text \<open>
  C3, amended: the constructor is total; each field that the argument leaves out gets its
  default (search depth 6, candidate count 10, search range 2, the full default weight table with
  \<open>opponentThreat = -0.8\<close>); a search depth, candidate count or search range that the
  argument has and that is not zero is kept as it is, negative or not, and a weight table that
  the argument has is kept as a whole.
\<close>

theorem constructor_defaults:
  "(case argSearchDepth a of None \<Rightarrow> searchDepth (constructor a) = 6
                            | Some v \<Rightarrow> v \<noteq> 0 \<longrightarrow> searchDepth (constructor a) = v) \<and>
   (case argCandidateCount a of None \<Rightarrow> candidateCount (constructor a) = 10
                               | Some v \<Rightarrow> v \<noteq> 0 \<longrightarrow> candidateCount (constructor a) = v) \<and>
   (case argSearchRange a of None \<Rightarrow> searchRange (constructor a) = 2
                            | Some v \<Rightarrow> v \<noteq> 0 \<longrightarrow> searchRange (constructor a) = v) \<and>
   (case argPatternWeights a of
      None \<Rightarrow> patternWeights (constructor a) = defaultPatternWeights
                \<and> defaultPatternWeights OpponentThreat = Some (- (4 / 5))
                \<and> dom defaultPatternWeights = UNIV
    | Some w \<Rightarrow> patternWeights (constructor a) = w)"
proof -
  have "k \<in> dom defaultPatternWeights" for k
    by (cases k) (simp_all add: defaultPatternWeights_def)
  then have "dom defaultPatternWeights = UNIV" by blast
  then show ?thesis
    by (simp add: constructor_def spread_def orDefault_def defaultPatternWeights_def
        split: option.splits)
qed

theorem constructor_defaults_witness:
  "searchDepth (constructor \<lparr> argSearchDepth = Some (- 1), argCandidateCount = Some 3,
       argSearchRange = None, argPatternWeights = None \<rparr>) = - 1 \<and>
   candidateCount (constructor \<lparr> argSearchDepth = Some (- 1), argCandidateCount = Some 3,
       argSearchRange = None, argPatternWeights = None \<rparr>) = 3 \<and>
   searchRange (constructor \<lparr> argSearchDepth = Some (- 1), argCandidateCount = Some 3,
       argSearchRange = None, argPatternWeights = None \<rparr>) = 2 \<and>
   patternWeights (constructor \<lparr> argSearchDepth = Some (- 1), argCandidateCount = Some 3,
       argSearchRange = None, argPatternWeights = None \<rparr>) = defaultPatternWeights"
  using constructor_defaults [of "\<lparr> argSearchDepth = Some (- 1), argCandidateCount = Some 3,
       argSearchRange = None, argPatternWeights = None \<rparr>"]
  by simp

section \<open>Quick evaluation of a cell\<close>

text \<open>
  C4, as the specification states it, fails: next to a lone black stone the own line score of
  black is 10 (one open two) and the opponent's is 0, and the engine returns 10, not the
  doubled value 20.
\<close>

theorem quickEvaluatePosition_not_doubled:
  "inBoard 7 8 \<and> stoneBoard 7 8 = 0 \<and>
   fst (quickEvaluatePosition defaultEngine stoneBoard 7 8 1) = 10 \<and>
   quickEvaluateDoubled defaultEngine stoneBoard 7 8 1 = 20"
  by code_simp

text \<open>
  C4, amended: on an empty cell of the board \<^verbatim>\<open>quickEvaluatePosition\<close> returns the sum of the
  pattern scores of the four lines through the cell with the player's stone on it, not doubled,
  plus 0.8 times the same sum for the opponent's stone on that cell, and leaves the cell empty.
\<close>

theorem quickEvaluatePosition_sum:
  assumes "inBoard row col" and "b row col = 0"
  shows "quickEvaluatePosition st b row col player =
           (ownLineScores st b row col player
              + (4 / 5) * ownLineScores st b row col (3 - player), b)"
  using assms by (simp add: quickEvaluatePosition_eq setCell_restore)

theorem quickEvaluatePosition_sum_witness:
  "inBoard 7 8 \<and> stoneBoard 7 8 = 0 \<and>
   quickEvaluatePosition defaultEngine stoneBoard 7 8 1 =
     (ownLineScores defaultEngine stoneBoard 7 8 1
        + (4 / 5) * ownLineScores defaultEngine stoneBoard 7 8 (3 - 1), stoneBoard)"
proof -
  have h1: "inBoard 7 8" by code_simp
  have h2: "stoneBoard 7 8 = 0" by code_simp
  from quickEvaluatePosition_sum [of 7 8 stoneBoard defaultEngine 1, OF h1 h2] h1 h2
  show ?thesis by simp
qed

section \<open>Scoring of a line\<close>

text \<open>
  C5: the engine starts every rule on a fresh copy of the line, so what one rule has consumed is
  there again for the next rule.  The row of \<open>jumpFourBoard\<close> holds one shape, which the
  dead-four rule scores (400, on \<open>10111\<close>) and the live-three rule scores again (400, on
  \<open>01110\<close>): the line is worth 800.
\<close>

theorem calculateLineScore_rescans:
  "getRowString jumpFourBoard 7 1 = ''20101110000000002'' \<and>
   calculateLineScore defaultEngine (getRowString jumpFourBoard 7 1) = 800 \<and>
   patternWeights defaultEngine DeadFour = 400 \<and>
   patternWeights defaultEngine LiveThree = 400"
  by code_simp

section \<open>Evaluation of a board\<close>

text \<open>
  C10: an engine built without a weight table of the caller's has \<open>opponentThreat = -0.8\<close>;
  its \<^verbatim>\<open>evaluateBoard\<close> is the player's pattern score plus 0.8 times the opponent's, so that
  between two boards with the same score for the player the one with the larger score for the
  opponent evaluates higher.
\<close>

theorem evaluateBoard_default_threat:
  assumes "argPatternWeights a = None"
  shows "\<exists>st. numericSettings (constructor a) = Some st \<and>
              patternWeights st OpponentThreat = - (4 / 5) \<and>
              (\<forall>b player. evaluateBoard st b player =
                 evaluatePatternsForPlayer st b player
                   + (4 / 5) * evaluatePatternsForPlayer st b (3 - player)) \<and>
              (\<forall>b b' player.
                 evaluatePatternsForPlayer st b player = evaluatePatternsForPlayer st b' player \<and>
                 evaluatePatternsForPlayer st b (3 - player)
                   \<le> evaluatePatternsForPlayer st b' (3 - player)
                 \<longrightarrow> evaluateBoard st b player \<le> evaluateBoard st b' player)"
proof -
  have all: "list_all (\<lambda>k. patternWeights (constructor a) k \<noteq> None) allKeys"
    using assms by (simp add: constructor_def spread_def allKeys_def defaultPatternWeights_def)
  then obtain st where st: "numericSettings (constructor a) = Some st"
    by (simp add: numericSettings_def)
  with all assms have threat: "patternWeights st OpponentThreat = - (4 / 5)"
    by (auto simp: numericSettings_def constructor_def spread_def defaultPatternWeights_def)
  then have "evaluateBoard st b player =
      evaluatePatternsForPlayer st b player + (4 / 5) * evaluatePatternsForPlayer st b (3 - player)"
    for b player
    by (simp add: evaluateBoard_def Let_def)
  with st threat show ?thesis by auto
qed

theorem evaluateBoard_default_threat_witness:
  "argPatternWeights noSettings = None \<and>
   (\<exists>st. numericSettings (constructor noSettings) = Some st \<and>
          patternWeights st OpponentThreat = - (4 / 5) \<and>
          (\<forall>b player. evaluateBoard st b player =
             evaluatePatternsForPlayer st b player
               + (4 / 5) * evaluatePatternsForPlayer st b (3 - player)))"
proof -
  have h: "argPatternWeights noSettings = None" by (simp add: noSettings_def)
  from evaluateBoard_default_threat [OF h] h show ?thesis by blast
qed

section \<open>Winner detection\<close>

text \<open>
  C6, as the specification states it, fails on a board where both players have five in a row:
  white has five, and \<^verbatim>\<open>checkWinner\<close> returns black's identifier.
\<close>

theorem checkWinner_both_fives:
  "fiveInRow twoFivesBoard 2 \<and> checkWinner twoFivesBoard = 1"
  by code_simp

text \<open>
  C6, amended: \<^verbatim>\<open>checkWinner\<close> returns 1 exactly when player 1 has five or more in a row;
  it returns 2 exactly when player 2 has five or more in a row and player 1 has not; it returns
  the draw sentinel 0 exactly when neither has and no cell is empty, and the sentinel -1
  exactly when neither has and some cell is empty.
\<close>

theorem checkWinner_cases:
  "(checkWinner b = 1 \<longleftrightarrow> fiveInRow b 1) \<and>
   (checkWinner b = 2 \<longleftrightarrow> fiveInRow b 2 \<and> \<not> fiveInRow b 1) \<and>
   (checkWinner b = 0 \<longleftrightarrow> \<not> fiveInRow b 1 \<and> \<not> fiveInRow b 2 \<and> noEmptyCell b) \<and>
   (checkWinner b = - 1 \<longleftrightarrow> \<not> fiveInRow b 1 \<and> \<not> fiveInRow b 2 \<and> \<not> noEmptyCell b)"
  by (simp add: checkWinner_def hasFiveInARow_iff isBoardFull_iff)

section \<open>Board restoration, null results and counters\<close>

text \<open>
  C1: \<^verbatim>\<open>quickEvaluatePosition\<close> on an empty cell and \<^verbatim>\<open>findBestMove\<close> leave the board as
  they found it: a search that gets the bound \<open>fuelFor st\<close> or more returns, with the
  board it was given, and so does every search that returns at all (a larger bound does not
  change what a search returns, \<open>findBestMove_mono\<close>).  \<^verbatim>\<open>evaluateBoard\<close> has no
  assignment to the board; in the model it is a function of the board.
\<close>

theorem board_restored:
  "(b row col = 0 \<longrightarrow> snd (quickEvaluatePosition st b row col player) = b) \<and>
   (\<forall>fuel\<ge>fuelFor st. \<exists>res cnt'. findBestMove fuel st b player cnt = Some (res, b, cnt')) \<and>
   (\<forall>fuel res b' cnt'. findBestMove fuel st b player cnt = Some (res, b', cnt') \<longrightarrow> b' = b)"
proof (intro conjI allI impI)
  assume "b row col = 0"
  then show "snd (quickEvaluatePosition st b row col player) = b"
    by (simp add: quickEvaluatePosition_eq setCell_restore)
next
  fix fuel assume "fuelFor st \<le> fuel"
  from findBestMove_run [OF this]
  show "\<exists>res cnt'. findBestMove fuel st b player cnt = Some (res, b, cnt')" by blast
next
  fix fuel res b' cnt'
  assume "findBestMove fuel st b player cnt = Some (res, b', cnt')"
  then show "b' = b" by (rule findBestMove_restores)
qed

theorem board_restored_witness:
  "stoneBoard 7 8 = 0 \<and>
   snd (quickEvaluatePosition defaultEngine stoneBoard 7 8 1) = stoneBoard \<and>
   fuelFor defaultEngine \<le> 458 \<and>
   (\<exists>res cnt'. findBestMove 458 defaultEngine stoneBoard 1
                    \<lparr>searchNodes = 0, pruningCount = 0\<rparr> = Some (res, stoneBoard, cnt'))"
proof -
  have h1: "stoneBoard 7 8 = 0" by code_simp
  have h2: "fuelFor defaultEngine \<le> 458" by (simp add: fuelFor_defaultEngine)
  from board_restored [of stoneBoard 7 8 defaultEngine 1 "\<lparr>searchNodes = 0, pruningCount = 0\<rparr>"]
    h1 h2
  show ?thesis by blast
qed

text \<open>
  C7: \<^verbatim>\<open>findBestMove\<close> returns \<^verbatim>\<open>null\<close> exactly when \<^verbatim>\<open>generateCandidateMoves\<close> gives
  no candidate at the root, and a result object otherwise (with the bound \<open>fuelFor st\<close> or
  more); on the empty board it returns \<^verbatim>\<open>null\<close> for every player and all settings.
\<close>

theorem findBestMove_null_iff:
  "((\<exists>b' cnt'. findBestMove fuel st b player cnt = Some (None, b', cnt'))
      \<longleftrightarrow> fst (generateCandidateMoves st b player) = []) \<and>
   (fuelFor st \<le> fuel \<and> fst (generateCandidateMoves st b player) \<noteq> []
      \<longrightarrow> (\<exists>res b' cnt'. findBestMove fuel st b player cnt = Some (Some res, b', cnt'))) \<and>
   (\<exists>cnt'. findBestMove fuel st emptyBoard player cnt = Some (None, emptyBoard, cnt'))"
proof (intro conjI impI)
  show "(\<exists>b' cnt'. findBestMove fuel st b player cnt = Some (None, b', cnt'))
          \<longleftrightarrow> fst (generateCandidateMoves st b player) = []"
    by (auto simp: findBestMove_eq generateCandidateMoves_eq split: option.splits)
next
  assume "fuelFor st \<le> fuel \<and> fst (generateCandidateMoves st b player) \<noteq> []"
  then have fuel: "fuelFor st \<le> fuel" and ne: "candidates st b player \<noteq> []"
    by (simp_all add: generateCandidateMoves_eq)
  from findBestMove_run [OF fuel, of b player cnt] ne
  show "\<exists>res b' cnt'. findBestMove fuel st b player cnt = Some (Some res, b', cnt')"
    by (metis not_Some_eq)
next
  show "\<exists>cnt'. findBestMove fuel st emptyBoard player cnt = Some (None, emptyBoard, cnt')"
    by (simp add: findBestMove_eq candidates_emptyBoard)
qed

theorem findBestMove_null_iff_witness:
  "fuelFor defaultEngine \<le> 458 \<and>
   fst (generateCandidateMoves defaultEngine stoneBoard 1) \<noteq> [] \<and>
   (\<exists>res b' cnt'. findBestMove 458 defaultEngine stoneBoard 1
                       \<lparr>searchNodes = 0, pruningCount = 0\<rparr> = Some (Some res, b', cnt'))"
proof -
  have h1: "fuelFor defaultEngine \<le> 458" by (simp add: fuelFor_defaultEngine)
  have "length (fst (generateCandidateMoves defaultEngine stoneBoard 1)) = 10"
    by (simp add: generateCandidateMoves_eq length_candidates_default)
  then have h2: "fst (generateCandidateMoves defaultEngine stoneBoard 1) \<noteq> []" by auto
  from findBestMove_null_iff [of 458 defaultEngine stoneBoard 1
      "\<lparr>searchNodes = 0, pruningCount = 0\<rparr>"] h1 h2
  show ?thesis by blast
qed

text \<open>
  C9, as the specification states it, fails: with search depth 1 every call of
  \<^verbatim>\<open>alphaBetaSearch\<close> is a leaf, and a root with one candidate ends with the counter at 1,
  not at 2 or more.
\<close>

theorem searchNodes_root_not_counted:
  "length (fst (generateCandidateMoves shallowEngine stoneBoard 1)) = 1 \<and>
   (case findBestMove 453 shallowEngine stoneBoard 1 \<lparr>searchNodes = 0, pruningCount = 0\<rparr> of
      Some (Some res, b', cnt') \<Rightarrow> resultSearchNodes res = 1
    | _ \<Rightarrow> False)"
proof -
  let ?c = "\<lparr>searchNodes = 0, pruningCount = 0\<rparr>"
  have len: "length (candidates shallowEngine stoneBoard 1) = 1"
    by (rule length_candidates_shallow)
  then have ne: "candidates shallowEngine stoneBoard 1 \<noteq> []" by auto
  have "fuelFor shallowEngine \<le> 453" by (simp add: fuelFor_shallowEngine)
  from findBestMove_run [OF this, of stoneBoard 1 ?c] ne obtain res cnt' where
    run: "findBestMove 453 shallowEngine stoneBoard 1 ?c = Some (Some res, stoneBoard, cnt')"
    by (metis not_Some_eq)
  with ne obtain bm bs where
    root: "rootLoop 453 shallowEngine (candidates shallowEngine stoneBoard 1) stoneBoard 1
             None NegInf NegInf ?c = Some (bm, bs, stoneBoard, cnt')"
    and res: "resultSearchNodes res = searchNodes cnt'"
    by (auto simp: findBestMove_eq split: option.splits)
  have "searchDepth shallowEngine = 1" by (simp add: shallowEngine_def)
  from rootLoop_nodes_depth1 [OF this, of 452] root len have "searchNodes cnt' = 1" by simp
  with res run len show ?thesis by (simp add: generateCandidateMoves_eq)
qed

text \<open>
  C9, amended: \<^verbatim>\<open>findBestMove\<close> starts from counters at zero whatever they were before;
  every call of \<^verbatim>\<open>alphaBetaSearch\<close> adds one to \<^verbatim>\<open>searchNodes\<close> for itself and its callees
  add theirs, so that a call raises the counter by the number of entries in its log of
  invocations; the root loop adds none, so that the result reports the number of entries in the
  log of the calls made below the root: at least k for a root with k candidates, and exactly k
  when the search depth is 1.
\<close>

theorem searchNodes_counted:
  "findBestMove fuel st b player cnt = findBestMove fuel st b player cnt0 \<and>
   (\<forall>b' cnt'. findBestMove fuel st b player cnt = Some (None, b', cnt')
       \<longrightarrow> searchNodes cnt' = 0 \<and> pruningCount cnt' = 0) \<and>
   (\<forall>res b' cnt'. findBestMove fuel st b player cnt = Some (Some res, b', cnt')
       \<longrightarrow> resultSearchNodes res = searchNodes cnt' \<and>
           resultPruningCount res = pruningCount cnt' \<and>
           (\<exists>calls. findBestMoveCalls fuel st b player = Some calls \<and>
                     resultSearchNodes res = length calls) \<and>
           length (fst (generateCandidateMoves st b player)) \<le> resultSearchNodes res \<and>
           (searchDepth st = 1
              \<longrightarrow> resultSearchNodes res = length (fst (generateCandidateMoves st b player)))) \<and>
   (\<forall>depth alpha beta p c result b' c'.
       alphaBetaSearch fuel st b depth alpha beta p c = Some (result, b', c')
       \<longrightarrow> searchNodes c < searchNodes c' \<and>
           (\<exists>calls. searchCalls fuel st b depth alpha beta p
                       = Some (result, (b, depth, p) # calls) \<and>
                     searchNodes c' = searchNodes c + 1 + length calls)) \<and>
   alphaBetaSearch (Suc fuel) st b 0 alpha beta player cnt =
     Some (Num (evaluateBoard st b player), b, cnt\<lparr>searchNodes := searchNodes cnt + 1\<rparr>)"
proof (intro conjI allI impI)
  show "findBestMove fuel st b player cnt = findBestMove fuel st b player cnt0"
    by (simp add: findBestMove_def)
next
  fix b' cnt'
  assume "findBestMove fuel st b player cnt = Some (None, b', cnt')"
  then have c: "cnt' = \<lparr>searchNodes = 0, pruningCount = 0\<rparr>"
    by (auto simp: findBestMove_eq split: if_splits option.splits)
  show "searchNodes cnt' = 0" "pruningCount cnt' = 0" by (simp_all add: c)
next
  fix res b' cnt'
  assume run: "findBestMove fuel st b player cnt = Some (Some res, b', cnt')"
  then obtain bm bs where
    root: "rootLoop fuel st (candidates st b player) b player None NegInf NegInf
             \<lparr>searchNodes = 0, pruningCount = 0\<rparr> = Some (bm, bs, b', cnt')"
    and res: "res = \<lparr>move = bm, score = bs, resultSearchNodes = searchNodes cnt',
                     resultPruningCount = pruningCount cnt'\<rparr>"
    and ne: "candidates st b player \<noteq> []"
    by (auto simp: findBestMove_eq split: if_splits option.splits)
  show "resultSearchNodes res = searchNodes cnt'" "resultPruningCount res = pruningCount cnt'"
    by (simp_all add: res)
  from run show "\<exists>calls. findBestMoveCalls fuel st b player = Some calls \<and>
                          resultSearchNodes res = length calls"
    by (rule findBestMove_calls)
  from rootLoop_nodes [OF root]
  show "length (fst (generateCandidateMoves st b player)) \<le> resultSearchNodes res"
    by (simp add: res generateCandidateMoves_eq)
  assume d1: "searchDepth st = 1"
  from root ne obtain g where "fuel = Suc g"
    by (cases fuel; cases "candidates st b player") (auto split: prod.splits)
  with rootLoop_nodes_depth1 [OF d1, of g] root
  show "resultSearchNodes res = length (fst (generateCandidateMoves st b player))"
    by (simp add: res generateCandidateMoves_eq)
next
  fix depth alpha beta p c result b' c'
  assume call: "alphaBetaSearch fuel st b depth alpha beta p c = Some (result, b', c')"
  then show "searchNodes c < searchNodes c'" by (rule alphaBetaSearch_nodes)
  from call show "\<exists>calls. searchCalls fuel st b depth alpha beta p
                             = Some (result, (b, depth, p) # calls) \<and>
                           searchNodes c' = searchNodes c + 1 + length calls"
    by (rule alphaBetaSearch_calls)
next
  show "alphaBetaSearch (Suc fuel) st b 0 alpha beta player cnt =
     Some (Num (evaluateBoard st b player), b, cnt\<lparr>searchNodes := searchNodes cnt + 1\<rparr>)"
    by (rule alphaBetaSearch_leaf)
qed

theorem searchNodes_counted_witness:
  "searchDepth shallowEngine = 1 \<and>
   (\<exists>res b' cnt' calls.
      findBestMove 453 shallowEngine stoneBoard 1 \<lparr>searchNodes = 7, pruningCount = 3\<rparr>
        = Some (Some res, b', cnt') \<and>
      resultSearchNodes res = searchNodes cnt' \<and>
      findBestMoveCalls 453 shallowEngine stoneBoard 1 = Some calls \<and>
      resultSearchNodes res = length calls \<and>
      resultSearchNodes res = length (fst (generateCandidateMoves shallowEngine stoneBoard 1)))"
proof -
  let ?c = "\<lparr>searchNodes = 7, pruningCount = 3\<rparr>"
  have d1: "searchDepth shallowEngine = 1" by (simp add: shallowEngine_def)
  have "length (candidates shallowEngine stoneBoard 1) = 1" by (rule length_candidates_shallow)
  then have ne: "candidates shallowEngine stoneBoard 1 \<noteq> []" by auto
  have "fuelFor shallowEngine \<le> 453" by (simp add: fuelFor_shallowEngine)
  from findBestMove_run [OF this, of stoneBoard 1 ?c] ne obtain res cnt' where
    run: "findBestMove 453 shallowEngine stoneBoard 1 ?c = Some (Some res, stoneBoard, cnt')"
    by (metis not_Some_eq)
  from searchNodes_counted [of 453 shallowEngine stoneBoard 1 ?c ?c NegInf PosInf] run d1
  show ?thesis by blast
qed

section \<open>Soundness of the pruning\<close>

text \<open>
  C2: the pruned search and the exhaustive negamax search of the same depth over the same
  ordered candidates return the same move (and the same score for it), and the pruned search
  counts no more nodes than the exhaustive one visits.  Both get the bound \<open>fuelFor st\<close> or
  more on nested calls, which suffices for both to return.
\<close>

theorem pruning_sound:
  assumes "fuelFor st \<le> fuel"
  shows "(\<exists>b' cnt'. findBestMove fuel st b player cnt = Some (None, b', cnt') \<and>
                    exhaustiveBestMove fuel st b player = Some None) \<or>
         (\<exists>res b' cnt' n.
            findBestMove fuel st b player cnt = Some (Some res, b', cnt') \<and>
            exhaustiveBestMove fuel st b player = Some (Some (move res, score res, n)) \<and>
            resultSearchNodes res \<le> n)"
proof (cases "candidates st b player = []")
  case True
  then show ?thesis by (simp add: findBestMove_eq exhaustiveBestMove_eq)
next
  case False
  let ?c = "\<lparr>searchNodes = 0, pruningCount = 0\<rparr>"
  from rootLoop_run [OF assms candidates_cells]
  obtain bm bs c' where
    root: "rootLoop fuel st (candidates st b player) b player None NegInf NegInf ?c
             = Some (bm, bs, b, c')"
    by blast
  from exhaustiveRoot_run [OF assms] obtain bm2 bs2 n2 where
    ex: "exhaustiveRoot fuel st (candidates st b player) b player None NegInf 0
           = Some (bm2, bs2, n2)"
    by (metis not_None_eq prod_cases3)
  from rootLoop_exhaustive [OF candidates_all_empty _ root ex]
  have "bm = bm2" "bs = bs2" "searchNodes c' \<le> n2" by simp_all
  with False root ex show ?thesis
    by (simp add: findBestMove_eq exhaustiveBestMove_eq)
qed

theorem pruning_sound_witness:
  "fuelFor defaultEngine \<le> 458 \<and>
   (\<exists>res b' cnt' n.
      findBestMove 458 defaultEngine stoneBoard 1 \<lparr>searchNodes = 0, pruningCount = 0\<rparr>
        = Some (Some res, b', cnt') \<and>
      exhaustiveBestMove 458 defaultEngine stoneBoard 1 = Some (Some (move res, score res, n)) \<and>
      resultSearchNodes res \<le> n)"
proof -
  let ?c = "\<lparr>searchNodes = 0, pruningCount = 0\<rparr>"
  have h: "fuelFor defaultEngine \<le> 458" by (simp add: fuelFor_defaultEngine)
  have "length (candidates defaultEngine stoneBoard 1) = 10" by (rule length_candidates_default)
  then have "candidates defaultEngine stoneBoard 1 \<noteq> []" by auto
  then have "\<not> (\<exists>b' cnt'. findBestMove 458 defaultEngine stoneBoard 1 ?c = Some (None, b', cnt'))"
    by (simp add: findBestMove_eq split: option.splits)
  with pruning_sound [OF h, of stoneBoard 1 ?c] h show ?thesis by blast
qed

section \<open>Candidates around a single stone\<close>

text \<open>
  C8: on a board whose only stone is at (7, 7), with search range 2 and a candidate count that
  is not negative, \<^verbatim>\<open>generateCandidateMoves\<close> returns the first \<open>candidateCount\<close> entries
  of a list of exactly the 24 cells other than (7, 7) at Chebyshev distance at most 2 from it,
  which is in descending order of their \<^verbatim>\<open>quickEvaluatePosition\<close> scores; the board is
  left as it was.
\<close>

theorem candidates_single_stone:
  assumes "searchRange st = 2" and "v \<noteq> 0" and "0 \<le> candidateCount st"
  shows "\<exists>ms. generateCandidateMoves st (setCell emptyBoard 7 7 v) player
                = (take (nat (candidateCount st)) ms, setCell emptyBoard 7 7 v) \<and>
              set ms = {m. m \<noteq> (7, 7) \<and> chebyshev m (7, 7) \<le> 2} \<and>
              length ms = 24 \<and>
              sorted_wrt (\<lambda>m m'.
                  fst (quickEvaluatePosition st (setCell emptyBoard 7 7 v) (fst m') (snd m') player)
                  \<le> fst (quickEvaluatePosition st (setCell emptyBoard 7 7 v) (fst m) (snd m) player))
                ms"
proof -
  let ?b = "setCell emptyBoard 7 7 v"
  let ?f = "quickScore st ?b player"
  let ?ms = "map fst (sort_key (\<lambda>(move, score). - score)
                        (map (\<lambda>m. (m, ?f m)) (nearbyEmptyCells st ?b)))"
  have "searchRange st = searchRange defaultEngine"
    using assms(1) by (simp add: defaultEngine_def)
  with single_stone_zero [OF assms(2)]
  have "nearbyEmptyCells st ?b = nearbyEmptyCells defaultEngine stoneBoard"
    by (rule nearbyEmptyCells_cong)
  then have near: "nearbyEmptyCells st ?b =
     [(5, 5), (5, 6), (5, 7), (5, 8), (5, 9), (6, 5), (6, 6), (6, 7), (6, 8), (6, 9),
      (7, 5), (7, 6), (7, 8), (7, 9), (8, 5), (8, 6), (8, 7), (8, 8), (8, 9),
      (9, 5), (9, 6), (9, 7), (9, 8), (9, 9)]"
    by (simp only: nearby_stoneBoard)
  have "set ?ms = set (nearbyEmptyCells st ?b)" by (simp add: image_image)
  then have set: "set ?ms = {m. m \<noteq> (7, 7) \<and> chebyshev m (7, 7) \<le> 2}"
    by (simp only: near near_cells_set)
  have "length ?ms = length (nearbyEmptyCells st ?b)" by simp
  then have len: "length ?ms = 24" by (simp only: near) simp
  have "sorted_wrt (\<lambda>m m'. ?f m' \<le> ?f m) ?ms" by (rule sorted_by_score)
  then have sorted: "sorted_wrt (\<lambda>m m'.
      fst (quickEvaluatePosition st ?b (fst m') (snd m') player)
      \<le> fst (quickEvaluatePosition st ?b (fst m) (snd m) player)) ?ms"
    by (simp only: quickScore_def case_prod_beta)
  have "generateCandidateMoves st ?b player = (take (nat (candidateCount st)) ?ms, ?b)"
    using assms(3) by (simp add: generateCandidateMoves_eq candidates_def slice0_def)
  with set len sorted show ?thesis by blast
qed

theorem candidates_single_stone_witness:
  "searchRange defaultEngine = 2 \<and> (1 :: int) \<noteq> 0 \<and> 0 \<le> candidateCount defaultEngine \<and>
   (\<exists>ms. generateCandidateMoves defaultEngine (setCell emptyBoard 7 7 1) 1
            = (take (nat (candidateCount defaultEngine)) ms, setCell emptyBoard 7 7 1) \<and>
          set ms = {m. m \<noteq> (7, 7) \<and> chebyshev m (7, 7) \<le> 2} \<and>
          length ms = 24)"
proof -
  have h1: "searchRange defaultEngine = 2" by (simp add: defaultEngine_def)
  have h2: "(1 :: int) \<noteq> 0" by simp
  have h3: "0 \<le> candidateCount defaultEngine" by (simp add: defaultEngine_def)
  from candidates_single_stone [OF h1 h2 h3, of 1] h1 h2 h3 show ?thesis by blast
qed

end
